theory Spec2Isabelle
  imports Main "HOL-Library.AList" "HOL-Library.Sublist"
begin

section \<open>The substituter: data model\<close>

text \<open>
  The module \<^verbatim>\<open>substituter.py\<close> resolves a dictionary of named strings whose
  values may refer to each other through placeholders \<^verbatim>\<open>${name}\<close>.

  Python dictionaries keep their insertion order and \<^verbatim>\<open>for entry in entries\<close>
  iterates in that order, so the dictionary is an association list (with distinct
  keys). The set \<^verbatim>\<open>resolved\<close> and the dictionary are closure variables of
  \<^verbatim>\<open>substitute\<close>; the list \<^verbatim>\<open>seen\<close> is one mutable list object handed down
  by reference through a whole top-level call. All three are fields of the state that
  the model passes along.
\<close>

type_synonym entries = "(string \<times> string) list"

record state =
  entries :: entries
  resolved :: "string set"
  seen :: "string list"

text \<open>
  The two exceptions of the module, and Python's \<^verbatim>\<open>KeyError\<close> for the lookup
  \<^verbatim>\<open>entries[entry]\<close>.
\<close>

datatype error =
  CyclicSubstitutionError "string list"
| UndefinedSubstitutionError string
| KeyError string

text \<open>
  A call either runs out of fuel (\<open>None\<close>: the recursion went deeper than the fuel
  allows), raises (\<open>Inl\<close>) or returns (\<open>Inr\<close>); the state is the one at that moment.
\<close>

type_synonym 'a result = "((error + 'a) \<times> state) option"

section \<open>The regular expression\<close>

text \<open>
  The pattern is \<^verbatim>\<open>\$\{([a-zA-Z0-9_]+)\}\<close>. The character class:
\<close>

definition ident_char :: "char \<Rightarrow> bool" where
  "ident_char c \<longleftrightarrow>
     c \<in> set ''abcdefghijklmnopqrstuvwxyzABCDEFGHIJKLMNOPQRSTUVWXYZ0123456789_''"

text \<open>
  A match of the pattern at the start of a string: a dollar sign, an opening brace, the
  longest run of identifier characters, which must not be empty, and a closing brace.
  (The class contains no closing brace, so giving back characters of the greedy run
  never produces a match.) The result is group 1 and the text after the match.
\<close>

definition match_placeholder :: "string \<Rightarrow> (string \<times> string) option" where
  "match_placeholder s =
     (case s of
        d # b # t \<Rightarrow>
          if d = CHR ''$'' \<and> b = CHR ''{'' then
            (case dropWhile ident_char t of
               [] \<Rightarrow> None
             | e # rest \<Rightarrow>
                 if e = CHR ''}'' \<and> takeWhile ident_char t \<noteq> []
                 then Some (takeWhile ident_char t, rest) else None)
          else None
      | _ \<Rightarrow> None)"

text \<open>
  \<^verbatim>\<open>re.sub\<close> scans the subject string from left to right for non-overlapping
  matches; where no match starts, the character is copied. The subject is an immutable
  string, so the positions of the matches do not depend on what the callback does.
\<close>

datatype piece = Literal char | Placeholder string

function finditer :: "string \<Rightarrow> piece list" where
  "finditer [] = []"
| "finditer (c # cs) =
     (case match_placeholder (c # cs) of
        Some (name, rest) \<Rightarrow> Placeholder name # finditer rest
      | None \<Rightarrow> Literal c # finditer cs)"
  by pat_completeness auto
termination
proof (relation "measure length")
  show "wf (measure length)" by simp
next
  fix c cs
  show "(cs, c # cs) \<in> measure length" by simp
next
  fix c cs x2 name rest
  assume "match_placeholder (c # cs) = Some x2" and "(name, rest) = x2"
  then obtain t where "c # cs = CHR ''$'' # CHR ''{'' # t"
    and "dropWhile ident_char t = CHR ''}'' # rest"
    by (auto simp: match_placeholder_def split: list.splits if_splits)
  moreover have "length (dropWhile ident_char t) \<le> length t"
    by (rule length_dropWhile_le)
  ultimately show "(rest, c # cs) \<in> measure length" by simp
qed

text \<open>
  \<^verbatim>\<open>re.sub(pattern, repl, string)\<close> with a function \<open>repl\<close>: the callback is
  called for each match in turn, in the state the previous one left, and its result
  is inserted as it is (it is not scanned again). An exception of the callback ends
  the whole substitution.
\<close>

fun re_sub :: "(string \<Rightarrow> state \<Rightarrow> string result) \<Rightarrow> piece list \<Rightarrow> string \<Rightarrow> state
    \<Rightarrow> string result" where
  "re_sub repl [] out s = Some (Inr out, s)"
| "re_sub repl (Literal c # ps) out s = re_sub repl ps (out @ [c]) s"
| "re_sub repl (Placeholder capture # ps) out s =
     (case repl capture s of
        None \<Rightarrow> None
      | Some (Inl e, s') \<Rightarrow> Some (Inl e, s')
      | Some (Inr v, s') \<Rightarrow> re_sub repl ps (out @ v) s')"

section \<open>The resolver\<close>

text \<open>
  \<^verbatim>\<open>capture_substituter\<close> (lines 38 to 47); \<open>rs\<close> is the enclosing
  \<^verbatim>\<open>resolve_substitution\<close>, which it calls in its last line.
\<close>

definition capture_substituter ::
  "(string \<Rightarrow> state \<Rightarrow> string result) \<Rightarrow> string \<Rightarrow> state \<Rightarrow> string result" where
  "capture_substituter rs capture s =
     (if capture \<notin> fst ` set (entries s) then
        Some (Inl (UndefinedSubstitutionError capture), s)
      else if capture \<in> resolved s then
        (case map_of (entries s) capture of
           None \<Rightarrow> Some (Inl (KeyError capture), s)
         | Some v \<Rightarrow> Some (Inr v, s))
      else if capture \<in> set (seen s) then
        Some (Inl (CyclicSubstitutionError (seen s @ [capture])),
              s\<lparr>seen := seen s @ [capture]\<rparr>)
      else rs capture s)"

text \<open>
  \<^verbatim>\<open>resolve_substitution\<close> (lines 33 to 54). The first argument is the fuel:
  the number of nested calls that are still allowed. Line 52 compares the substituted
  string with the entry's name.
\<close>

primrec resolve_substitution :: "nat \<Rightarrow> string \<Rightarrow> state \<Rightarrow> string result" where
  "resolve_substitution 0 entry s = None"
| "resolve_substitution (Suc n) entry s =
     (case map_of (entries s) entry of
        None \<Rightarrow> Some (Inl (KeyError entry), s\<lparr>seen := seen s @ [entry]\<rparr>)
      | Some raw \<Rightarrow>
          (case re_sub (capture_substituter (resolve_substitution n)) (finditer raw) []
                  (s\<lparr>seen := seen s @ [entry]\<rparr>) of
             None \<Rightarrow> None
           | Some (Inl e, s') \<Rightarrow> Some (Inl e, s')
           | Some (Inr subst, s') \<Rightarrow>
               Some (Inr subst,
                     s'\<lparr>entries := (if entry \<noteq> subst
                                     then AList.update entry subst (entries s')
                                     else entries s'),
                        resolved := insert entry (resolved s')\<rparr>)))"

text \<open>
  The loop of lines 56 to 58 over the keys; every top-level call starts a new list
  \<^verbatim>\<open>seen\<close>.
\<close>

fun substitute_loop :: "nat \<Rightarrow> string list \<Rightarrow> state \<Rightarrow> unit result" where
  "substitute_loop n [] s = Some (Inr (), s)"
| "substitute_loop n (entry # ks) s =
     (if entry \<notin> resolved s then
        (case resolve_substitution n entry (s\<lparr>seen := []\<rparr>) of
           None \<Rightarrow> None
         | Some (Inl e, s') \<Rightarrow> Some (Inl e, s')
         | Some (Inr v, s') \<Rightarrow> substitute_loop n ks s')
      else substitute_loop n ks s)"

text \<open>
  \<^verbatim>\<open>substitute\<close>: the result is the raised error or the returned dictionary,
  together with the caller's dictionary as the call leaves it (it is mutated in place,
  so on return the two are the same).
\<close>

definition substitute :: "nat \<Rightarrow> entries \<Rightarrow> ((error + entries) \<times> entries) option" where
  "substitute n es =
     (case substitute_loop n (map fst es) \<lparr>entries = es, resolved = {}, seen = []\<rparr> of
        None \<Rightarrow> None
      | Some (Inl e, s) \<Rightarrow> Some (Inl e, entries s)
      | Some (Inr u, s) \<Rightarrow> Some (Inr (entries s), entries s))"

section \<open>How a call changes the state\<close>

text \<open>
  \<open>advances s s'\<close>: between the two states no key was added, removed or moved, no name
  left the resolved set, and the value of a name changed only if the name became
  resolved in between. \<open>extends s s'\<close> says in addition that the list
  \<^verbatim>\<open>seen\<close> was only appended to and that every name that became resolved was
  appended to it.
\<close>

definition advances :: "state \<Rightarrow> state \<Rightarrow> bool" where
  "advances s s' \<longleftrightarrow>
     map fst (entries s') = map fst (entries s) \<and>
     resolved s \<subseteq> resolved s' \<and>
     (\<forall>k. k \<in> resolved s \<or> k \<notin> resolved s' \<longrightarrow>
          map_of (entries s') k = map_of (entries s) k)"

definition extends :: "state \<Rightarrow> state \<Rightarrow> bool" where
  "extends s s' \<longleftrightarrow>
     advances s s' \<and>
     prefix (seen s) (seen s') \<and>
     resolved s' - resolved s \<subseteq> set (seen s') - set (seen s)"

text \<open>
  The number of keys that are not yet in \<^verbatim>\<open>seen\<close>: the depth that the recursion
  can still reach.
\<close>

definition pending :: "state \<Rightarrow> nat" where
  "pending s = card (fst ` set (entries s) - set (seen s))"

text \<open>
  What holds of the list \<^verbatim>\<open>seen\<close> when an error is raised: a cyclic-reference
  error carries the list itself, whose last element repeats an earlier one and which is
  free of duplicates before that; with any other error the list has no duplicates.
\<close>

definition chain_ok :: "error \<Rightarrow> state \<Rightarrow> bool" where
  "chain_ok e s' \<longleftrightarrow>
     (case e of
        CyclicSubstitutionError chain \<Rightarrow>
          chain = seen s' \<and> seen s' \<noteq> [] \<and> distinct (butlast (seen s')) \<and>
          last (seen s') \<in> set (butlast (seen s'))
      | _ \<Rightarrow> distinct (seen s'))"

text \<open>
  An undefined reference in a state: the name is no key, and the value of some entry
  that is not yet resolved contains a placeholder for it.
\<close>

definition dangling :: "state \<Rightarrow> string \<Rightarrow> bool" where
  "dangling s name \<longleftrightarrow>
     name \<notin> fst ` set (entries s) \<and>
     (\<exists>k v. k \<notin> resolved s \<and> map_of (entries s) k = Some v \<and>
        Placeholder name \<in> set (finditer v))"

text \<open>
  The names that a scan captures, in the order of the matches, and the dictionaries
  in which no value contains a placeholder.
\<close>

fun captured :: "piece list \<Rightarrow> string list" where
  "captured [] = []"
| "captured (Literal c # ps) = captured ps"
| "captured (Placeholder name # ps) = name # captured ps"

definition placeholder_free :: "entries \<Rightarrow> bool" where
  "placeholder_free es \<longleftrightarrow> list_all (\<lambda>(k, v). captured (finditer v) = []) es"

text \<open>
  The reference graph of a dictionary: \<open>k\<close> refers to \<open>c\<close> when the value of
  \<open>k\<close> contains the placeholder \<^verbatim>\<open>${c}\<close>. A dictionary is fully defined when
  every name referred to is a key. \<open>sound es s\<close> relates a state of the resolver to
  the input dictionary \<open>es\<close>: the keys are those of the input, an entry that is not
  resolved has its input value, every resolved name is a key, refers to resolved names
  only and lies on no cycle of references.
\<close>

definition references :: "entries \<Rightarrow> (string \<times> string) set" where
  "references es =
     set (concat (map (\<lambda>k. case map_of es k of
                               None \<Rightarrow> []
                             | Some v \<Rightarrow> map (Pair k) (captured (finditer v)))
                      (map fst es)))"

definition fully_defined :: "entries \<Rightarrow> bool" where
  "fully_defined es \<longleftrightarrow> snd ` references es \<subseteq> fst ` set es"

definition sound :: "entries \<Rightarrow> state \<Rightarrow> bool" where
  "sound es s \<longleftrightarrow>
     fst ` set (entries s) = fst ` set es \<and>
     (\<forall>k. k \<notin> resolved s \<longrightarrow> map_of (entries s) k = map_of es k) \<and>
     resolved s \<subseteq> fst ` set es \<and>
     references es `` resolved s \<subseteq> resolved s \<and>
     (\<forall>k. k \<in> resolved s \<longrightarrow> (k, k) \<notin> (references es)\<^sup>+)"

text \<open>
  The names of \<^verbatim>\<open>seen\<close> that are not yet resolved: the entries whose resolution
  has started and not ended, that is, the path of the recursion.
\<close>

definition active :: "state \<Rightarrow> string list" where
  "active s = filter (\<lambda>k. k \<notin> resolved s) (seen s)"

section \<open>Auxiliary lemmas\<close>

subsection \<open>The reference graph\<close>

lemma references_iff:
  "(k, c) \<in> references es \<longleftrightarrow>
     (\<exists>v. map_of es k = Some v \<and> c \<in> set (captured (finditer v)))"
proof
  assume "(k, c) \<in> references es"
  then obtain k' where "(k, c) \<in> set (case map_of es k' of None \<Rightarrow> []
      | Some v \<Rightarrow> map (Pair k') (captured (finditer v)))"
    by (auto simp: references_def)
  then show "\<exists>v. map_of es k = Some v \<and> c \<in> set (captured (finditer v))"
    by (cases "map_of es k'") auto
next
  assume "\<exists>v. map_of es k = Some v \<and> c \<in> set (captured (finditer v))"
  then obtain v where v: "map_of es k = Some v" and c: "c \<in> set (captured (finditer v))"
    by blast
  from v have "(k, v) \<in> set es" by (rule map_of_SomeD)
  then have "k \<in> set (map fst es)" by (auto intro: rev_image_eqI)
  moreover from v c have "(k, c) \<in> set (case map_of es k of None \<Rightarrow> []
      | Some v \<Rightarrow> map (Pair k) (captured (finditer v)))"
    by simp
  ultimately show "(k, c) \<in> references es"
    unfolding references_def set_concat set_map by blast
qed

lemma references_eq:
  "references es = {(k, c). \<exists>v. map_of es k = Some v \<and> c \<in> set (captured (finditer v))}"
  by (auto simp: references_iff)

subsection \<open>Frame\<close>

lemma advances_keys: "advances s s' \<Longrightarrow> map fst (entries s') = map fst (entries s)"
  by (simp add: advances_def)

lemma advances_key_set:
  "advances s s' \<Longrightarrow> fst ` set (entries s') = fst ` set (entries s)"
  by (metis advances_keys list.set_map)

lemma advances_resolved_mono: "advances s s' \<Longrightarrow> resolved s \<subseteq> resolved s'"
  by (simp add: advances_def)

lemma advances_frame:
  "advances s s' \<Longrightarrow> k \<in> resolved s \<or> k \<notin> resolved s' \<Longrightarrow>
     map_of (entries s') k = map_of (entries s) k"
  unfolding advances_def by blast

lemma advances_refl: "advances s s"
  by (simp add: advances_def)

lemma advances_trans:
  assumes "advances a b" and "advances b c"
  shows "advances a c"
proof -
  from assms have r: "resolved a \<subseteq> resolved b" "resolved b \<subseteq> resolved c"
    by (simp_all add: advances_def)
  have "map_of (entries c) k = map_of (entries a) k"
    if "k \<in> resolved a \<or> k \<notin> resolved c" for k
  proof -
    from that r have "k \<in> resolved a \<or> k \<notin> resolved b" "k \<in> resolved b \<or> k \<notin> resolved c"
      by blast+
    with assms show ?thesis by (simp add: advances_frame)
  qed
  moreover have "map fst (entries c) = map fst (entries a)"
    using assms by (simp add: advances_def)
  ultimately show ?thesis using r unfolding advances_def by blast
qed

lemma advances_seen_update [simp]:
  "advances (s\<lparr>seen := xs\<rparr>) s' = advances s s'"
  "advances s (s'\<lparr>seen := xs\<rparr>) = advances s s'"
  by (simp_all add: advances_def)

lemma extends_advances: "extends s s' \<Longrightarrow> advances s s'"
  by (simp add: extends_def)

lemma extends_keys: "extends s s' \<Longrightarrow> map fst (entries s') = map fst (entries s)"
  by (simp add: extends_def advances_keys)

lemma extends_key_set: "extends s s' \<Longrightarrow> fst ` set (entries s') = fst ` set (entries s)"
  by (simp add: extends_def advances_key_set)

lemma extends_prefix: "extends s s' \<Longrightarrow> prefix (seen s) (seen s')"
  by (simp add: extends_def)

lemma extends_seen_subset: "extends s s' \<Longrightarrow> set (seen s) \<subseteq> set (seen s')"
  by (auto simp: extends_def dest: set_mono_prefix)

lemma extends_resolved_mono: "extends s s' \<Longrightarrow> resolved s \<subseteq> resolved s'"
  by (simp add: extends_def advances_resolved_mono)

lemma extends_resolved_new:
  "extends s s' \<Longrightarrow> resolved s' - resolved s \<subseteq> set (seen s') - set (seen s)"
  by (simp add: extends_def)

lemma extends_frame:
  "extends s s' \<Longrightarrow> k \<in> resolved s \<or> k \<notin> resolved s' \<Longrightarrow>
     map_of (entries s') k = map_of (entries s) k"
  by (simp add: extends_def advances_frame)

lemma extends_refl: "extends s s"
  by (simp add: extends_def advances_refl)

lemma extends_trans:
  assumes "extends a b" and "extends b c"
  shows "extends a c"
proof -
  from assms have p: "prefix (seen a) (seen b)" "prefix (seen b) (seen c)"
    by (simp_all add: extends_def)
  then have sub: "set (seen a) \<subseteq> set (seen b)" "set (seen b) \<subseteq> set (seen c)"
    by (auto dest: set_mono_prefix)
  from assms have d: "resolved b - resolved a \<subseteq> set (seen b) - set (seen a)"
           "resolved c - resolved b \<subseteq> set (seen c) - set (seen b)"
    by (simp_all add: extends_def)
  have "advances a c"
    using assms by (auto simp: extends_def intro: advances_trans)
  moreover have "prefix (seen a) (seen c)"
    using p by (rule prefix_order.trans)
  moreover have "resolved c - resolved a \<subseteq> set (seen c) - set (seen a)"
    using d sub by blast
  ultimately show ?thesis by (simp add: extends_def)
qed

lemma extends_seen_append: "extends s (s\<lparr>seen := seen s @ xs\<rparr>)"
  by (simp add: extends_def advances_refl)

lemma re_sub_extends:
  assumes cb: "\<And>c s r s'. repl c s = Some (r, s') \<Longrightarrow> extends s s'"
  shows "re_sub repl ps out s = Some (r, s') \<Longrightarrow> extends s s'"
proof (induction ps arbitrary: out s)
  case Nil
  then show ?case by (simp add: extends_refl)
next
  case (Cons p ps)
  show ?case
  proof (cases p)
    case (Literal c)
    with Cons show ?thesis by simp
  next
    case (Placeholder c)
    with Cons.prems obtain r1 s1 where 1: "repl c s = Some (r1, s1)"
      by (auto split: option.splits)
    have e1: "extends s s1" using cb 1 .
    show ?thesis
    proof (cases r1)
      case (Inl e)
      with Cons.prems Placeholder 1 e1 show ?thesis by simp
    next
      case (Inr v)
      with Cons.prems Placeholder 1 have "re_sub repl ps (out @ v) s1 = Some (r, s')"
        by simp
      then have "extends s1 s'" by (rule Cons.IH)
      with e1 show ?thesis by (rule extends_trans)
    qed
  qed
qed

lemma capture_substituter_extends:
  assumes rs: "\<And>r s'. rs c s = Some (r, s') \<Longrightarrow> c \<in> fst ` set (entries s) \<Longrightarrow>
      c \<notin> set (seen s) \<Longrightarrow> c \<notin> resolved s \<Longrightarrow> extends s s'"
  shows "capture_substituter rs c s = Some (r, s') \<Longrightarrow> extends s s'"
  using rs
  by (auto simp: capture_substituter_def extends_refl extends_seen_append
           split: if_splits option.splits)

lemma resolve_substitution_extends:
  "resolve_substitution n e s = Some (r, s') \<Longrightarrow> e \<notin> set (seen s) \<Longrightarrow>
     e \<notin> resolved s \<Longrightarrow> extends s s'"
proof (induction n arbitrary: e s r s')
  case 0
  then show ?case by simp
next
  case (Suc n)
  let ?s1 = "s\<lparr>seen := seen s @ [e]\<rparr>"
  have e01: "extends s ?s1" by (rule extends_seen_append)
  show ?case
  proof (cases "map_of (entries s) e")
    case None
    with Suc.prems e01 show ?thesis by auto
  next
    case (Some raw)
    with Suc.prems obtain r2 s2 where
      2: "re_sub (capture_substituter (resolve_substitution n)) (finditer raw) [] ?s1 = Some (r2, s2)"
      by (auto split: option.splits)
    have e12: "extends ?s1 s2"
      using 2
      by (rule re_sub_extends[rotated]) (erule capture_substituter_extends[rotated], rule Suc.IH)
    show ?thesis
    proof (cases r2)
      case (Inl err)
      with Suc.prems Some 2 have "s' = s2" by simp
      with e01 e12 show ?thesis by (auto intro: extends_trans)
    next
      case (Inr subst)
      with Suc.prems Some 2 have s': "s' = s2\<lparr>entries := (if e \<noteq> subst
                                     then AList.update e subst (entries s2)
                                     else entries s2),
                        resolved := insert e (resolved s2)\<rparr>"
        by simp
      from Some have "e \<in> fst ` set (entries s)"
        by (auto dest!: map_of_SomeD intro: rev_image_eqI)
      with extends_key_set[OF e12] have k2: "e \<in> fst ` set (entries s2)"
        by simp
      have m: "map fst (entries s') = map fst (entries s2)"
        using k2 by (simp add: s' update_keys)
      have f: "map_of (entries s') k = map_of (entries s2) k" if "k \<noteq> e" for k
        using that by (simp add: s' update_conv')
      from extends_seen_subset[OF e12]
      have p12: "set (seen s) \<subseteq> set (seen s2)" "e \<in> set (seen s2)"
        by simp_all
      have "map fst (entries s') = map fst (entries s)"
        using m extends_keys[OF e12] by simp
      moreover have "resolved s \<subseteq> resolved s'"
        using extends_resolved_mono[OF e12] by (auto simp: s')
      moreover have "map_of (entries s') k = map_of (entries s) k"
        if "k \<in> resolved s \<or> k \<notin> resolved s'" for k
      proof -
        from that Suc.prems(3) have ne: "k \<noteq> e" by (auto simp: s')
        from that have "k \<in> resolved ?s1 \<or> k \<notin> resolved s2" by (auto simp: s')
        with e12 have "map_of (entries s2) k = map_of (entries ?s1) k"
          by (rule extends_frame)
        with f[OF ne] show ?thesis by simp
      qed
      ultimately have "advances s s'" unfolding advances_def by blast
      moreover have "prefix (seen s) (seen s')"
        using extends_prefix[OF e12] by (auto simp: s' dest: append_prefixD)
      moreover have "resolved s' - resolved s \<subseteq> set (seen s') - set (seen s)"
        using extends_resolved_new[OF e12] Suc.prems(2) p12 by (auto simp: s')
      ultimately show ?thesis unfolding extends_def by blast
    qed
  qed
qed

lemma substitute_loop_advances:
  "substitute_loop n ks s = Some (r, s') \<Longrightarrow> advances s s'"
proof (induction ks arbitrary: s)
  case Nil
  then show ?case by (simp add: advances_refl)
next
  case (Cons k ks)
  show ?case
  proof (cases "k \<in> resolved s")
    case True
    with Cons show ?thesis by simp
  next
    case False
    with Cons.prems obtain r1 s1 where
      1: "resolve_substitution n k (s\<lparr>seen := []\<rparr>) = Some (r1, s1)"
      by (auto split: option.splits)
    with False have "extends (s\<lparr>seen := []\<rparr>) s1"
      by (auto intro: resolve_substitution_extends)
    then have a1: "advances s s1" by (auto dest: extends_advances)
    show ?thesis
    proof (cases r1)
      case (Inl e)
      with Cons.prems False 1 a1 show ?thesis by simp
    next
      case (Inr v)
      with Cons.prems False 1 have "substitute_loop n ks s1 = Some (r, s')" by simp
      then have "advances s1 s'" by (rule Cons.IH)
      with a1 show ?thesis by (rule advances_trans)
    qed
  qed
qed

subsection \<open>Fuel\<close>

lemma re_sub_mono:
  assumes "\<And>c s x. f c s = Some x \<Longrightarrow> g c s = Some x"
  shows "re_sub f ps out s = Some x \<Longrightarrow> re_sub g ps out s = Some x"
proof (induction ps arbitrary: out s)
  case Nil
  then show ?case by simp
next
  case (Cons p ps)
  show ?case
  proof (cases p)
    case (Literal c)
    with Cons show ?thesis by simp
  next
    case (Placeholder c)
    with Cons.prems obtain r1 s1 where 1: "f c s = Some (r1, s1)"
      by (auto split: option.splits)
    then have 2: "g c s = Some (r1, s1)" by (rule assms)
    show ?thesis
    proof (cases r1)
      case (Inl e)
      with Cons.prems Placeholder 1 have "x = (Inl e, s1)" by simp
      with Placeholder 2 Inl show ?thesis by simp
    next
      case (Inr v)
      with Cons.prems Placeholder 1 have "re_sub f ps (out @ v) s1 = Some x" by simp
      then have "re_sub g ps (out @ v) s1 = Some x" by (rule Cons.IH)
      with Placeholder 2 Inr show ?thesis by simp
    qed
  qed
qed

lemma capture_substituter_mono:
  assumes "\<And>x. f c s = Some x \<Longrightarrow> g c s = Some x"
  shows "capture_substituter f c s = Some x \<Longrightarrow> capture_substituter g c s = Some x"
  using assms by (auto simp: capture_substituter_def split: if_splits option.splits)

lemma resolve_substitution_Suc:
  "resolve_substitution n e s = Some x \<Longrightarrow> resolve_substitution (Suc n) e s = Some x"
proof (induction n arbitrary: e s x)
  case 0
  then show ?case by simp
next
  case (Suc n)
  show ?case
  proof (cases "map_of (entries s) e")
    case None
    with Suc.prems show ?thesis by simp
  next
    case (Some raw)
    let ?s1 = "s\<lparr>seen := seen s @ [e]\<rparr>"
    from Suc.prems Some obtain y where
      1: "re_sub (capture_substituter (resolve_substitution n)) (finditer raw) [] ?s1 = Some y"
      by (auto split: option.splits)
    have "re_sub (capture_substituter (resolve_substitution (Suc n))) (finditer raw) [] ?s1 = Some y"
      using 1 by (rule re_sub_mono[rotated]) (erule capture_substituter_mono[rotated], rule Suc.IH)
    with 1 Suc.prems Some show ?thesis by (simp del: resolve_substitution.simps(2) add: resolve_substitution.simps(2)[of "Suc n"] resolve_substitution.simps(2)[of n])
  qed
qed

lemma resolve_substitution_fuel:
  "resolve_substitution n e s = Some x \<Longrightarrow> n \<le> m \<Longrightarrow> resolve_substitution m e s = Some x"
  by (induction m) (auto simp: le_Suc_eq dest: resolve_substitution_Suc simp del: resolve_substitution.simps)

lemma substitute_loop_fuel:
  "substitute_loop n ks s = Some x \<Longrightarrow> n \<le> m \<Longrightarrow> substitute_loop m ks s = Some x"
proof (induction ks arbitrary: s)
  case Nil
  then show ?case by simp
next
  case (Cons k ks)
  show ?case
  proof (cases "k \<in> resolved s")
    case True
    with Cons show ?thesis by simp
  next
    case False
    with Cons.prems obtain r1 s1 where
      1: "resolve_substitution n k (s\<lparr>seen := []\<rparr>) = Some (r1, s1)"
      by (auto split: option.splits)
    then have 2: "resolve_substitution m k (s\<lparr>seen := []\<rparr>) = Some (r1, s1)"
      using Cons.prems(2) by (rule resolve_substitution_fuel)
    show ?thesis
    proof (cases r1)
      case (Inl e)
      with Cons.prems False 1 2 show ?thesis by simp
    next
      case (Inr v)
      with Cons.prems False 1 have "substitute_loop n ks s1 = Some x" by simp
      then have "substitute_loop m ks s1 = Some x" using Cons.prems(2) by (rule Cons.IH)
      with False 2 Inr show ?thesis by simp
    qed
  qed
qed

lemma substitute_fuel:
  "substitute n es = Some x \<Longrightarrow> n \<le> m \<Longrightarrow> substitute m es = Some x"
proof -
  assume a: "substitute n es = Some x" and le: "n \<le> m"
  then obtain y where 1: "substitute_loop n (map fst es)
      \<lparr>entries = es, resolved = {}, seen = []\<rparr> = Some y"
    by (auto simp: substitute_def split: option.splits)
  from substitute_loop_fuel[OF 1 le] 1 a show ?thesis
    by (simp add: substitute_def)
qed

subsection \<open>Termination\<close>

lemma extends_pending: "extends s s' \<Longrightarrow> pending s' \<le> pending s"
proof -
  assume e: "extends s s'"
  have "fst ` set (entries s') - set (seen s') \<subseteq> fst ` set (entries s) - set (seen s)"
    using extends_key_set[OF e] extends_seen_subset[OF e] by blast
  then show ?thesis unfolding pending_def by (intro card_mono) auto
qed

lemma re_sub_terminates:
  assumes cb: "\<And>c s. pending s \<le> n \<Longrightarrow> repl c s \<noteq> None"
    and ext: "\<And>c s r s'. repl c s = Some (r, s') \<Longrightarrow> extends s s'"
  shows "pending s \<le> n \<Longrightarrow> re_sub repl ps out s \<noteq> None"
proof (induction ps arbitrary: out s)
  case Nil
  then show ?case by simp
next
  case (Cons p ps)
  show ?case
  proof (cases p)
    case (Literal c)
    with Cons show ?thesis by simp
  next
    case (Placeholder c)
    from cb[OF Cons.prems, of c] obtain r1 s1 where 1: "repl c s = Some (r1, s1)"
      by (cases "repl c s") auto
    show ?thesis
    proof (cases r1)
      case (Inl e)
      with Placeholder 1 show ?thesis by simp
    next
      case (Inr v)
      from extends_pending[OF ext[OF 1]] Cons.prems have "pending s1 \<le> n" by simp
      then have "re_sub repl ps (out @ v) s1 \<noteq> None" by (rule Cons.IH)
      with Placeholder 1 Inr show ?thesis by simp
    qed
  qed
qed

lemma resolve_substitution_terminates:
  "pending s \<le> n \<Longrightarrow> e \<in> fst ` set (entries s) \<Longrightarrow> e \<notin> set (seen s) \<Longrightarrow>
     resolve_substitution n e s \<noteq> None"
proof (induction n arbitrary: e s)
  case 0
  have "finite (fst ` set (entries s) - set (seen s))" by simp
  moreover from 0 have "e \<in> fst ` set (entries s) - set (seen s)" by simp
  ultimately have "0 < pending s" unfolding pending_def by (auto simp: card_gt_0_iff)
  with 0 show ?case by simp
next
  case (Suc n)
  let ?s1 = "s\<lparr>seen := seen s @ [e]\<rparr>"
  let ?cb = "capture_substituter (resolve_substitution n)"
  from Suc.prems(2) obtain raw where raw: "map_of (entries s) e = Some raw"
    by (cases "map_of (entries s) e") (auto simp: map_of_eq_None_iff)
  have "fst ` set (entries s) - set (seen ?s1) = (fst ` set (entries s) - set (seen s)) - {e}"
    by auto
  then have "pending ?s1 = pending s - 1"
    using Suc.prems(2,3) by (simp add: pending_def)
  with Suc.prems(1) have p1: "pending ?s1 \<le> n" by simp
  have cb: "?cb c t \<noteq> None" if "pending t \<le> n" for c t
    using that Suc.IH[of t c] by (auto simp: capture_substituter_def split: option.splits)
  have ext: "extends t t'" if "?cb c t = Some (r, t')" for c t r t'
    using that by (rule capture_substituter_extends[rotated]) (rule resolve_substitution_extends)
  have "re_sub ?cb (finditer raw) [] ?s1 \<noteq> None"
    using cb ext p1 by (rule re_sub_terminates)
  with raw show ?case by (auto split: sum.splits)
qed

subsection \<open>Errors\<close>

lemma re_sub_error:
  assumes cb: "\<And>c s err s'. repl c s = Some (Inl err, s') \<Longrightarrow> P err"
  shows "re_sub repl ps out s = Some (Inl err, s') \<Longrightarrow> P err"
proof (induction ps arbitrary: out s)
  case Nil
  then show ?case by simp
next
  case (Cons p ps)
  show ?case
  proof (cases p)
    case (Literal c)
    with Cons show ?thesis by simp
  next
    case (Placeholder c)
    with Cons.prems obtain r1 s1 where 1: "repl c s = Some (r1, s1)"
      by (auto split: option.splits)
    show ?thesis
    proof (cases r1)
      case (Inl e)
      with Cons.prems Placeholder 1 have "e = err" by simp
      with 1 Inl cb show ?thesis by blast
    next
      case (Inr v)
      with Cons.prems Placeholder 1 have "re_sub repl ps (out @ v) s1 = Some (Inl err, s')"
        by simp
      then show ?thesis by (rule Cons.IH)
    qed
  qed
qed

lemma resolve_substitution_no_KeyError:
  "resolve_substitution n e s = Some (Inl err, s') \<Longrightarrow> e \<in> fst ` set (entries s) \<Longrightarrow>
     err \<noteq> KeyError x"
proof (induction n arbitrary: e s err s')
  case 0
  then show ?case by simp
next
  case (Suc n)
  let ?cb = "capture_substituter (resolve_substitution n)"
  from Suc.prems(2) obtain raw where raw: "map_of (entries s) e = Some raw"
    by (cases "map_of (entries s) e") (auto simp: map_of_eq_None_iff)
  with Suc.prems(1) have
    1: "re_sub ?cb (finditer raw) [] (s\<lparr>seen := seen s @ [e]\<rparr>) = Some (Inl err, s')"
    by (auto split: option.splits sum.splits)
  have cb: "err' \<noteq> KeyError x" if "?cb c t = Some (Inl err', t')" for c t err' t'
    using that Suc.IH[of c t err' t']
    by (auto simp: capture_substituter_def map_of_eq_None_iff split: if_splits option.splits)
  from 1 show ?case by (rule re_sub_error[rotated]) (rule cb)
qed

lemma substitute_loop_terminates:
  "card (fst ` set (entries s)) \<le> n \<Longrightarrow> set ks \<subseteq> fst ` set (entries s) \<Longrightarrow>
     substitute_loop n ks s \<noteq> None"
proof (induction ks arbitrary: s)
  case Nil
  then show ?case by simp
next
  case (Cons k ks)
  show ?case
  proof (cases "k \<in> resolved s")
    case True
    with Cons show ?thesis by simp
  next
    case False
    have "pending (s\<lparr>seen := []\<rparr>) \<le> n"
      using Cons.prems(1) by (simp add: pending_def)
    then have "resolve_substitution n k (s\<lparr>seen := []\<rparr>) \<noteq> None"
      using Cons.prems(2) by (intro resolve_substitution_terminates) auto
    then obtain r1 s1 where 1: "resolve_substitution n k (s\<lparr>seen := []\<rparr>) = Some (r1, s1)"
      by auto
    show ?thesis
    proof (cases r1)
      case (Inl e)
      with False 1 show ?thesis by simp
    next
      case (Inr v)
      from 1 False have "extends (s\<lparr>seen := []\<rparr>) s1"
        by (auto intro: resolve_substitution_extends)
      from extends_key_set[OF this] have "fst ` set (entries s1) = fst ` set (entries s)"
        by simp
      with Cons.prems have "substitute_loop n ks s1 \<noteq> None"
        by (intro Cons.IH) auto
      with False 1 Inr show ?thesis by simp
    qed
  qed
qed

lemma substitute_loop_no_KeyError:
  "substitute_loop n ks s = Some (Inl err, s') \<Longrightarrow> set ks \<subseteq> fst ` set (entries s) \<Longrightarrow>
     err \<noteq> KeyError x"
proof (induction ks arbitrary: s)
  case Nil
  then show ?case by simp
next
  case (Cons k ks)
  show ?case
  proof (cases "k \<in> resolved s")
    case True
    with Cons show ?thesis by simp
  next
    case False
    with Cons.prems obtain r1 s1 where
      1: "resolve_substitution n k (s\<lparr>seen := []\<rparr>) = Some (r1, s1)"
      by (auto split: option.splits)
    show ?thesis
    proof (cases r1)
      case (Inl e)
      with Cons.prems False 1 have "e = err" by simp
      with 1 Inl Cons.prems(2) show ?thesis
        by (auto dest!: resolve_substitution_no_KeyError)
    next
      case (Inr v)
      from 1 False have "extends (s\<lparr>seen := []\<rparr>) s1"
        by (auto intro: resolve_substitution_extends)
      from extends_key_set[OF this] have "fst ` set (entries s1) = fst ` set (entries s)"
        by simp
      moreover from Cons.prems False 1 Inr
      have "substitute_loop n ks s1 = Some (Inl err, s')" by simp
      ultimately show ?thesis using Cons.prems(2) by (intro Cons.IH) auto
    qed
  qed
qed

subsection \<open>Rules for the two loops\<close>

lemma re_sub_rule:
  assumes run: "re_sub repl ps out s = Some (r, s')"
    and init: "I s"
    and cb: "\<And>c s r s'. I s \<Longrightarrow> repl c s = Some (r, s') \<Longrightarrow>
      (case r of Inl e \<Rightarrow> E e s' | Inr v \<Rightarrow> I s')"
  shows "case r of Inl e \<Rightarrow> E e s' | Inr v \<Rightarrow> I s'"
  using run init
proof (induction ps arbitrary: out s)
  case Nil
  then show ?case by auto
next
  case (Cons p ps)
  show ?case
  proof (cases p)
    case (Literal c)
    with Cons show ?thesis by simp
  next
    case (Placeholder c)
    with Cons.prems obtain r1 s1 where 1: "repl c s = Some (r1, s1)"
      by (auto split: option.splits)
    note q = cb[OF Cons.prems(2) 1]
    show ?thesis
    proof (cases r1)
      case (Inl e)
      with Cons.prems Placeholder 1 have "r = Inl e" "s' = s1" by simp_all
      with q Inl show ?thesis by simp
    next
      case (Inr v)
      with Cons.prems Placeholder 1 have "re_sub repl ps (out @ v) s1 = Some (r, s')"
        by simp
      moreover from q Inr have "I s1" by simp
      ultimately show ?thesis by (rule Cons.IH)
    qed
  qed
qed

lemma substitute_loop_rule:
  assumes run: "substitute_loop n ks s = Some (r, s')"
    and init: "I s"
    and step: "\<And>k s r s'. I s \<Longrightarrow> k \<in> set ks \<Longrightarrow> k \<notin> resolved s \<Longrightarrow>
      resolve_substitution n k (s\<lparr>seen := []\<rparr>) = Some (r, s') \<Longrightarrow>
      (case r of Inl e \<Rightarrow> E e s' | Inr v \<Rightarrow> I s')"
  shows "case r of Inl e \<Rightarrow> E e s' | Inr u \<Rightarrow> I s'"
  using run init step
proof (induction ks arbitrary: s)
  case Nil
  then show ?case by auto
next
  case (Cons k ks)
  have IH: "substitute_loop n ks t = Some (r, s') \<Longrightarrow> I t \<Longrightarrow>
      (case r of Inl e \<Rightarrow> E e s' | Inr u \<Rightarrow> I s')" for t
    by (rule Cons.IH) (auto intro: Cons.prems(3))
  show ?case
  proof (cases "k \<in> resolved s")
    case True
    with Cons.prems(1,2) IH show ?thesis by simp
  next
    case False
    with Cons.prems obtain r1 s1 where
      1: "resolve_substitution n k (s\<lparr>seen := []\<rparr>) = Some (r1, s1)"
      by (auto split: option.splits)
    have q: "case r1 of Inl e \<Rightarrow> E e s1 | Inr v \<Rightarrow> I s1"
      using Cons.prems(2) _ False 1 by (rule Cons.prems(3)) simp
    show ?thesis
    proof (cases r1)
      case (Inl e)
      with Cons.prems(1) False 1 have "r = Inl e" "s' = s1" by simp_all
      with q Inl show ?thesis by simp
    next
      case (Inr v)
      with Cons.prems(1) False 1 have "substitute_loop n ks s1 = Some (r, s')" by simp
      moreover from q Inr have "I s1" by simp
      ultimately show ?thesis by (rule IH)
    qed
  qed
qed

subsection \<open>The list seen\<close>

lemma capture_substituter_distinct:
  assumes rs: "\<And>r s'. c \<notin> set (seen s) \<Longrightarrow> rs c s = Some (r, s') \<Longrightarrow>
      (case r of Inl e \<Rightarrow> chain_ok e s' | Inr v \<Rightarrow> distinct (seen s'))"
  shows "distinct (seen s) \<Longrightarrow> capture_substituter rs c s = Some (r, s') \<Longrightarrow>
      (case r of Inl e \<Rightarrow> chain_ok e s' | Inr v \<Rightarrow> distinct (seen s'))"
  using rs
  by (auto simp: capture_substituter_def chain_ok_def split: if_splits option.splits)

lemma resolve_substitution_distinct:
  "distinct (seen s) \<Longrightarrow> e \<notin> set (seen s) \<Longrightarrow> resolve_substitution n e s = Some (r, s') \<Longrightarrow>
     (case r of Inl e \<Rightarrow> chain_ok e s' | Inr v \<Rightarrow> distinct (seen s'))"
proof (induction n arbitrary: e s r s')
  case 0
  then show ?case by simp
next
  case (Suc n)
  let ?s1 = "s\<lparr>seen := seen s @ [e]\<rparr>"
  let ?cb = "capture_substituter (resolve_substitution n)"
  from Suc.prems have d1: "distinct (seen ?s1)" by simp
  show ?case
  proof (cases "map_of (entries s) e")
    case None
    with Suc.prems(3) d1 show ?thesis by (auto simp: chain_ok_def)
  next
    case (Some raw)
    with Suc.prems(3) obtain r2 s2 where
      2: "re_sub ?cb (finditer raw) [] ?s1 = Some (r2, s2)"
      by (auto split: option.splits)
    have cb: "case r of Inl e \<Rightarrow> chain_ok e t' | Inr v \<Rightarrow> distinct (seen t')"
      if "distinct (seen t)" "?cb c t = Some (r, t')" for c t r t'
      using that by (rule capture_substituter_distinct[rotated]) (rule Suc.IH[OF that(1)])
    have q: "case r2 of Inl e \<Rightarrow> chain_ok e s2 | Inr v \<Rightarrow> distinct (seen s2)"
      using 2 d1 cb by (rule re_sub_rule[where I = "\<lambda>s. distinct (seen s)"])
    show ?thesis
    proof (cases r2)
      case (Inl err)
      with Suc.prems(3) Some 2 have "r = Inl err" "s' = s2" by simp_all
      with q Inl show ?thesis by simp
    next
      case (Inr subst)
      with Suc.prems(3) Some 2 have "r = Inr subst" "seen s' = seen s2" by auto
      with q Inr show ?thesis by simp
    qed
  qed
qed

lemma re_sub_callback_extends:
  "re_sub (capture_substituter (resolve_substitution n)) ps out s = Some (r, s') \<Longrightarrow>
     extends s s'"
  by (rule re_sub_extends[rotated], assumption, erule capture_substituter_extends[rotated])
     (rule resolve_substitution_extends)

lemma capture_substituter_prefix:
  assumes rs: "\<And>r s'. rs c s = Some (r, s') \<Longrightarrow> prefix (seen s) (seen s')"
  shows "capture_substituter rs c s = Some (r, s') \<Longrightarrow> prefix (seen s) (seen s')"
  using rs by (auto simp: capture_substituter_def split: if_splits option.splits)

lemma resolve_substitution_prefix:
  "resolve_substitution n e s = Some (r, s') \<Longrightarrow> prefix (seen s @ [e]) (seen s')"
proof (induction n arbitrary: e s r s')
  case 0
  then show ?case by simp
next
  case (Suc n)
  let ?s1 = "s\<lparr>seen := seen s @ [e]\<rparr>"
  let ?cb = "capture_substituter (resolve_substitution n)"
  show ?case
  proof (cases "map_of (entries s) e")
    case None
    with Suc.prems show ?thesis by auto
  next
    case (Some raw)
    with Suc.prems obtain r2 s2 where
      2: "re_sub ?cb (finditer raw) [] ?s1 = Some (r2, s2)" and s': "seen s' = seen s2"
      by (auto split: option.splits sum.splits)
    have cb: "case r of Inl e \<Rightarrow> prefix (seen ?s1) (seen t') | Inr v \<Rightarrow> prefix (seen ?s1) (seen t')"
      if "prefix (seen ?s1) (seen t)" "?cb c t = Some (r, t')" for c t r t'
    proof -
      have "prefix (seen t) (seen t')"
        using that(2) by (rule capture_substituter_prefix[rotated])
          (auto dest!: Suc.IH dest: append_prefixD)
      with that(1) have "prefix (seen ?s1) (seen t')" by (rule prefix_order.trans)
      then show ?thesis by (simp split: sum.splits)
    qed
    have "case r2 of Inl e \<Rightarrow> prefix (seen ?s1) (seen s2) | Inr v \<Rightarrow> prefix (seen ?s1) (seen s2)"
      using 2 _ cb by (rule re_sub_rule[where I = "\<lambda>t. prefix (seen ?s1) (seen t)"]) simp
    then show ?thesis by (simp add: s' split: sum.splits)
  qed
qed

lemma resolve_substitution_seen_keys:
  "e \<in> fst ` set (entries s) \<Longrightarrow> e \<notin> set (seen s) \<Longrightarrow> e \<notin> resolved s \<Longrightarrow>
   set (seen s) \<subseteq> fst ` set (entries s) \<Longrightarrow> resolve_substitution n e s = Some (r, s') \<Longrightarrow>
     set (seen s') \<subseteq> fst ` set (entries s')"
proof (induction n arbitrary: e s r s')
  case 0
  then show ?case by simp
next
  case (Suc n)
  let ?s1 = "s\<lparr>seen := seen s @ [e]\<rparr>"
  let ?cb = "capture_substituter (resolve_substitution n)"
  let ?I = "\<lambda>t. set (seen t) \<subseteq> fst ` set (entries t)"
  from Suc.prems(1) obtain raw where raw: "map_of (entries s) e = Some raw"
    by (cases "map_of (entries s) e") (auto simp: map_of_eq_None_iff)
  with Suc.prems(5) obtain r2 s2 where
    2: "re_sub ?cb (finditer raw) [] ?s1 = Some (r2, s2)" and s': "seen s' = seen s2"
    by (auto split: option.splits sum.splits)
  from Suc.prems have i1: "?I ?s1" by simp
  have cb: "case r of Inl e \<Rightarrow> ?I t' | Inr v \<Rightarrow> ?I t'"
    if "?I t" "?cb c t = Some (r, t')" for c t r t'
  proof -
    have "?I t'"
      using that Suc.IH[of c t]
      by (auto simp: capture_substituter_def split: if_splits option.splits)
    then show ?thesis by (simp split: sum.splits)
  qed
  have "case r2 of Inl e \<Rightarrow> ?I s2 | Inr v \<Rightarrow> ?I s2"
    using 2 i1 cb by (rule re_sub_rule[where I = ?I])
  then have "?I s2" by (simp split: sum.splits)
  moreover have "fst ` set (entries s') = fst ` set (entries s2)"
    using extends_key_set[OF resolve_substitution_extends[OF Suc.prems(5,2,3)]]
      extends_key_set[OF re_sub_callback_extends[OF 2]] by simp
  ultimately show ?case by (simp add: s')
qed

lemma re_sub_callback_keeps_seen_entries:
  assumes run: "re_sub (capture_substituter (resolve_substitution n)) ps out s = Some (r, s')"
    and k: "k \<in> set (seen s)"
  shows "map_of (entries s') k = map_of (entries s) k"
    and "k \<in> resolved s' \<longleftrightarrow> k \<in> resolved s"
proof -
  note e = re_sub_callback_extends[OF run]
  from extends_resolved_new[OF e] k have "k \<notin> resolved s' - resolved s" by auto
  with extends_resolved_mono[OF e] show 2: "k \<in> resolved s' \<longleftrightarrow> k \<in> resolved s" by auto
  then have "k \<in> resolved s \<or> k \<notin> resolved s'" by auto
  with e show "map_of (entries s') k = map_of (entries s) k" by (rule extends_frame)
qed

subsection \<open>Where an error of the scan comes from\<close>

lemma re_sub_error_split:
  assumes "re_sub repl ps out s = Some (Inl err, s')"
  shows "\<exists>ps1 c ps2 out' t. ps = ps1 @ Placeholder c # ps2 \<and>
           re_sub repl ps1 out s = Some (Inr out', t) \<and> repl c t = Some (Inl err, s')"
  using assms
proof (induction ps arbitrary: out s)
  case Nil
  then show ?case by simp
next
  case (Cons p ps)
  show ?case
  proof (cases p)
    case (Literal x)
    with Cons.prems have "re_sub repl ps (out @ [x]) s = Some (Inl err, s')" by simp
    from Cons.IH[OF this] obtain ps1 c ps2 out' t where
      "ps = ps1 @ Placeholder c # ps2" "re_sub repl ps1 (out @ [x]) s = Some (Inr out', t)"
      "repl c t = Some (Inl err, s')" by blast
    with Literal have "p # ps = (p # ps1) @ Placeholder c # ps2 \<and>
        re_sub repl (p # ps1) out s = Some (Inr out', t) \<and> repl c t = Some (Inl err, s')"
      by simp
    then show ?thesis by blast
  next
    case (Placeholder c)
    with Cons.prems obtain r1 s1 where 1: "repl c s = Some (r1, s1)"
      by (auto split: option.splits)
    show ?thesis
    proof (cases r1)
      case (Inl e)
      with Cons.prems Placeholder 1 have "repl c s = Some (Inl err, s')" by simp
      with Placeholder have "p # ps = [] @ Placeholder c # ps \<and>
          re_sub repl [] out s = Some (Inr out, s) \<and> repl c s = Some (Inl err, s')"
        by simp
      then show ?thesis by blast
    next
      case (Inr v)
      with Cons.prems Placeholder 1 have "re_sub repl ps (out @ v) s1 = Some (Inl err, s')"
        by simp
      from Cons.IH[OF this] obtain ps1 c' ps2 out' t where
        "ps = ps1 @ Placeholder c' # ps2" "re_sub repl ps1 (out @ v) s1 = Some (Inr out', t)"
        "repl c' t = Some (Inl err, s')" by blast
      with Placeholder 1 Inr have "p # ps = (p # ps1) @ Placeholder c' # ps2 \<and>
          re_sub repl (p # ps1) out s = Some (Inr out', t) \<and> repl c' t = Some (Inl err, s')"
        by simp
      then show ?thesis by blast
    qed
  qed
qed

subsection \<open>Undefined references\<close>

lemma dangling_advances: "advances s t \<Longrightarrow> dangling t name \<Longrightarrow> dangling s name"
  unfolding dangling_def
  using advances_key_set advances_resolved_mono advances_frame
  by (metis subsetD)

lemma dangling_seen_update [simp]: "dangling (s\<lparr>seen := xs\<rparr>) name = dangling s name"
  by (simp add: dangling_def)

lemma resolve_substitution_undefined:
  "resolve_substitution n e s = Some (Inl (UndefinedSubstitutionError name), s') \<Longrightarrow>
     e \<notin> resolved s \<Longrightarrow> e \<notin> set (seen s) \<Longrightarrow> dangling s name"
proof (induction n arbitrary: e s s')
  case 0
  then show ?case by simp
next
  case (Suc n)
  let ?s1 = "s\<lparr>seen := seen s @ [e]\<rparr>"
  let ?cb = "capture_substituter (resolve_substitution n)"
  from Suc.prems(1) obtain raw where raw: "map_of (entries s) e = Some raw"
    and 2: "re_sub ?cb (finditer raw) [] ?s1 = Some (Inl (UndefinedSubstitutionError name), s')"
    by (auto split: option.splits sum.splits)
  from re_sub_error_split[OF 2] obtain ps1 c ps2 out' t where
    ps: "finditer raw = ps1 @ Placeholder c # ps2"
    and 3: "re_sub ?cb ps1 [] ?s1 = Some (Inr out', t)"
    and 4: "?cb c t = Some (Inl (UndefinedSubstitutionError name), s')"
    by blast
  note ext = re_sub_callback_extends[OF 3]
  have "dangling t name"
  proof (cases "c \<in> fst ` set (entries t)")
    case False
    with 4 have n: "name = c" by (simp add: capture_substituter_def)
    have "e \<notin> resolved t"
      using re_sub_callback_keeps_seen_entries(2)[OF 3, of e] Suc.prems(2) by simp
    moreover have "map_of (entries t) e = Some raw"
      using re_sub_callback_keeps_seen_entries(1)[OF 3, of e] raw by simp
    moreover have "Placeholder name \<in> set (finditer raw)"
      by (simp add: ps n)
    ultimately show ?thesis using False n unfolding dangling_def by blast
  next
    case True
    with 4 have "c \<notin> resolved t" "c \<notin> set (seen t)"
      and "resolve_substitution n c t = Some (Inl (UndefinedSubstitutionError name), s')"
      by (auto simp: capture_substituter_def split: if_splits option.splits)
    then show ?thesis by (intro Suc.IH)
  qed
  with extends_advances[OF ext] have "dangling ?s1 name" by (rule dangling_advances)
  then show ?case by simp
qed

lemma substitute_loop_undefined:
  assumes "substitute_loop n ks s = Some (Inl (UndefinedSubstitutionError name), s')"
  shows "dangling s name"
proof -
  have "case Inl (UndefinedSubstitutionError name) :: error + unit of
          Inl e \<Rightarrow> (e = UndefinedSubstitutionError name \<longrightarrow> dangling s name)
        | Inr u \<Rightarrow> advances s s'"
    using assms
  proof (rule substitute_loop_rule[where I = "\<lambda>t. advances s t"])
    show "advances s s" by (rule advances_refl)
  next
    fix k t r t'
    assume a: "advances s t" and k: "k \<notin> resolved t"
      and r: "resolve_substitution n k (t\<lparr>seen := []\<rparr>) = Some (r, t')"
    from r k have "extends (t\<lparr>seen := []\<rparr>) t'"
      by (auto intro: resolve_substitution_extends)
    then have at: "advances t t'" by (auto dest: extends_advances)
    show "case r of Inl e \<Rightarrow> (e = UndefinedSubstitutionError name \<longrightarrow> dangling s name)
        | Inr u \<Rightarrow> advances s t'"
    proof (cases r)
      case (Inl e)
      have "dangling s name" if "e = UndefinedSubstitutionError name"
      proof -
        from r Inl that have "resolve_substitution n k (t\<lparr>seen := []\<rparr>) =
            Some (Inl (UndefinedSubstitutionError name), t')" by simp
        then have "dangling (t\<lparr>seen := []\<rparr>) name"
          by (rule resolve_substitution_undefined) (use k in simp_all)
        then have "dangling t name" by simp
        with a show ?thesis by (rule dangling_advances)
      qed
      with Inl show ?thesis by simp
    next
      case (Inr v)
      with a at show ?thesis by (auto intro: advances_trans)
    qed
  qed
  then show ?thesis by simp
qed

subsection \<open>Values without placeholders\<close>

lemma set_captured: "set (captured ps) = {c. Placeholder c \<in> set ps}"
  by (induction ps rule: captured.induct) auto

lemma finditer_literals: "captured (finditer v) = [] \<Longrightarrow> finditer v = map Literal v"
proof (induction v rule: finditer.induct)
  case 1
  then show ?case by simp
next
  case (2 c cs)
  show ?case
  proof (cases "match_placeholder (c # cs)")
    case None
    with 2 show ?thesis by simp
  next
    case (Some m)
    with "2.prems" show ?thesis by (cases m) simp
  qed
qed

lemma re_sub_literals: "re_sub repl (map Literal v) out s = Some (Inr (out @ v), s)"
  by (induction v arbitrary: out) simp_all

lemma resolve_substitution_literal:
  assumes "map_of (entries s) e = Some v" and "captured (finditer v) = []"
  shows "resolve_substitution (Suc m) e s =
    Some (Inr v, s\<lparr>seen := seen s @ [e], resolved := insert e (resolved s)\<rparr>)"
proof -
  have "AList.update e v (entries s) = entries s"
    using assms(1) by (rule update_triv)
  moreover have "finditer v = map Literal v"
    using assms(2) by (rule finditer_literals)
  ultimately show ?thesis using assms(1) by (simp add: re_sub_literals)
qed

lemma substitute_loop_literal:
  assumes "placeholder_free (entries s)" and "set ks \<subseteq> fst ` set (entries s)"
  shows "\<exists>s'. substitute_loop (Suc m) ks s = Some (Inr (), s') \<and> entries s' = entries s"
  using assms
proof (induction ks arbitrary: s)
  case Nil
  then show ?case by simp
next
  case (Cons k ks)
  show ?case
  proof (cases "k \<in> resolved s")
    case True
    with Cons show ?thesis by simp
  next
    case False
    from Cons.prems(2) obtain v where v: "map_of (entries s) k = Some v"
      by (cases "map_of (entries s) k") (auto simp: map_of_eq_None_iff)
    then have "(k, v) \<in> set (entries s)" by (rule map_of_SomeD)
    with Cons.prems(1) have "captured (finditer v) = []"
      by (auto simp: placeholder_free_def list_all_iff)
    with v have 1: "resolve_substitution (Suc m) k (s\<lparr>seen := []\<rparr>) =
        Some (Inr v, s\<lparr>seen := [k], resolved := insert k (resolved s)\<rparr>)"
      using resolve_substitution_literal[of "s\<lparr>seen := []\<rparr>" k v m] by simp
    let ?s1 = "s\<lparr>seen := [k], resolved := insert k (resolved s)\<rparr>"
    from Cons.prems have "\<exists>s'. substitute_loop (Suc m) ks ?s1 = Some (Inr (), s') \<and>
        entries s' = entries ?s1"
      by (intro Cons.IH) simp_all
    with False 1 show ?thesis by simp
  qed
qed

subsection \<open>The payload of the cyclic-reference error\<close>

lemma resolve_substitution_payload:
  "resolve_substitution n e s = Some (Inl (CyclicSubstitutionError chain), s') \<Longrightarrow>
     chain = seen s'"
proof (induction n arbitrary: e s s')
  case 0
  then show ?case by simp
next
  case (Suc n)
  let ?cb = "capture_substituter (resolve_substitution n)"
  let ?E = "\<lambda>err (t::state). err = CyclicSubstitutionError chain \<longrightarrow> chain = seen t"
  from Suc.prems obtain raw where
    2: "re_sub ?cb (finditer raw) [] (s\<lparr>seen := seen s @ [e]\<rparr>) =
        Some (Inl (CyclicSubstitutionError chain), s')"
    by (auto split: option.splits sum.splits)
  have "case Inl (CyclicSubstitutionError chain) :: error + string of
          Inl err \<Rightarrow> ?E err s' | Inr v \<Rightarrow> True"
    using 2
  proof (rule re_sub_rule[where I = "\<lambda>t. True" and E = ?E])
    fix c t r t'
    assume "?cb c t = Some (r, t')"
    then show "case r of Inl err \<Rightarrow> ?E err t' | Inr v \<Rightarrow> True"
      using Suc.IH[of c t]
      by (auto simp: capture_substituter_def split: if_splits option.splits sum.splits)
  qed simp
  then show ?case by simp
qed

lemma resolve_substitution_top_level_chain:
  assumes run: "resolve_substitution n k (s\<lparr>seen := []\<rparr>) =
      Some (Inl (CyclicSubstitutionError chain), s')"
    and k: "k \<in> fst ` set (entries s)" "k \<notin> resolved s"
  shows "chain = seen s' \<and> hd chain = k \<and> distinct (butlast chain) \<and>
    last chain \<in> set (butlast chain) \<and> set chain \<subseteq> fst ` set (entries s)"
proof -
  let ?s0 = "s\<lparr>seen := []\<rparr>"
  from resolve_substitution_distinct[OF _ _ run]
  have c: "chain_ok (CyclicSubstitutionError chain) s'" by simp
  from resolve_substitution_prefix[OF run] have "prefix [k] (seen s')" by simp
  then have h: "hd (seen s') = k" by (auto simp: prefix_def)
  from resolve_substitution_seen_keys[OF _ _ _ _ run] k
  have "set (seen s') \<subseteq> fst ` set (entries s')" by simp
  moreover have "extends ?s0 s'"
    using run by (rule resolve_substitution_extends) (use k in simp_all)
  from extends_key_set[OF this] have "fst ` set (entries s') = fst ` set (entries s)"
    by simp
  ultimately show ?thesis using c h by (simp add: chain_ok_def)
qed

lemma substitute_loop_chain:
  assumes run: "substitute_loop n ks s = Some (Inl (CyclicSubstitutionError chain), s')"
    and ks: "set ks \<subseteq> fst ` set (entries s)"
  shows "hd chain \<in> set ks \<and> distinct (butlast chain) \<and>
    last chain \<in> set (butlast chain) \<and> set chain \<subseteq> fst ` set (entries s)"
proof -
  let ?K = "fst ` set (entries s)"
  let ?E = "\<lambda>e (t::state). e = CyclicSubstitutionError chain \<longrightarrow>
    hd chain \<in> set ks \<and> distinct (butlast chain) \<and>
    last chain \<in> set (butlast chain) \<and> set chain \<subseteq> ?K"
  have "case Inl (CyclicSubstitutionError chain) :: error + unit of
          Inl e \<Rightarrow> ?E e s' | Inr u \<Rightarrow> fst ` set (entries s') = ?K"
    using run
  proof (rule substitute_loop_rule[where I = "\<lambda>t. fst ` set (entries t) = ?K" and E = ?E])
    show "fst ` set (entries s) = ?K" by simp
  next
    fix k t r t'
    assume i: "fst ` set (entries t) = ?K" and k: "k \<in> set ks" "k \<notin> resolved t"
      and r: "resolve_substitution n k (t\<lparr>seen := []\<rparr>) = Some (r, t')"
    from k(1) ks i have kk: "k \<in> fst ` set (entries t)" by auto
    show "case r of Inl e \<Rightarrow> ?E e t' | Inr u \<Rightarrow> fst ` set (entries t') = ?K"
    proof (cases r)
      case (Inl e)
      have "hd chain \<in> set ks \<and> distinct (butlast chain) \<and>
          last chain \<in> set (butlast chain) \<and> set chain \<subseteq> ?K"
        if "e = CyclicSubstitutionError chain"
      proof -
        from r Inl that have "resolve_substitution n k (t\<lparr>seen := []\<rparr>) =
            Some (Inl (CyclicSubstitutionError chain), t')" by simp
        from resolve_substitution_top_level_chain[OF this kk k(2)] i k(1)
        show ?thesis by metis
      qed
      with Inl show ?thesis by simp
    next
      case (Inr v)
      have "extends (t\<lparr>seen := []\<rparr>) t'"
        using r by (rule resolve_substitution_extends) (use k in simp_all)
      from extends_key_set[OF this] have "fst ` set (entries t') = fst ` set (entries t)"
        by simp
      with Inr i show ?thesis by simp
    qed
  qed
  then show ?thesis by simp
qed

subsection \<open>Success means that all references are defined and acyclic\<close>

lemma sound_seen_update [simp]: "sound es (s\<lparr>seen := xs\<rparr>) = sound es s"
  by (simp add: sound_def)

lemma sound_reachable:
  assumes "sound es s" and "(c, x) \<in> (references es)\<^sup>*" and "c \<in> resolved s"
  shows "x \<in> resolved s"
  using assms(2,3)
proof (induction rule: rtrancl_induct)
  case base
  then show ?case .
next
  case (step y z)
  then have "y \<in> resolved s" by simp
  with step.hyps(2) assms(1) show ?case unfolding sound_def by blast
qed

lemma resolve_substitution_marks_resolved:
  "resolve_substitution n e s = Some (Inr v, s') \<Longrightarrow> e \<in> resolved s'"
  by (cases n) (auto split: option.splits sum.splits)

lemma re_sub_captured_resolved:
  "re_sub (capture_substituter (resolve_substitution n)) ps out s = Some (Inr v, s') \<Longrightarrow>
     set (captured ps) \<subseteq> resolved s'"
proof (induction ps arbitrary: out s)
  case Nil
  then show ?case by simp
next
  case (Cons p ps)
  let ?cb = "capture_substituter (resolve_substitution n)"
  show ?case
  proof (cases p)
    case (Literal x)
    with Cons show ?thesis by simp
  next
    case (Placeholder c)
    with Cons.prems obtain v1 s1 where 1: "?cb c s = Some (Inr v1, s1)"
      and 2: "re_sub ?cb ps (out @ v1) s1 = Some (Inr v, s')"
      by (auto split: option.splits sum.splits)
    from 1 have "c \<in> resolved s1"
      by (auto simp: capture_substituter_def split: if_splits option.splits
               dest: resolve_substitution_marks_resolved)
    with extends_resolved_mono[OF re_sub_callback_extends[OF 2]] have "c \<in> resolved s'"
      by auto
    with Cons.IH[OF 2] Placeholder show ?thesis by simp
  qed
qed

lemma resolve_substitution_sound:
  "sound es s \<Longrightarrow> e \<in> fst ` set es \<Longrightarrow> e \<notin> resolved s \<Longrightarrow> e \<notin> set (seen s) \<Longrightarrow>
   resolve_substitution n e s = Some (r, s') \<Longrightarrow> sound es s'"
proof (induction n arbitrary: e s r s')
  case 0
  then show ?case by simp
next
  case (Suc n)
  let ?s1 = "s\<lparr>seen := seen s @ [e]\<rparr>"
  let ?cb = "capture_substituter (resolve_substitution n)"
  let ?R = "references es"
  from Suc.prems(1,2) have "e \<in> fst ` set (entries s)" by (simp add: sound_def)
  then obtain raw where raw: "map_of (entries s) e = Some raw"
    by (cases "map_of (entries s) e") (auto simp: map_of_eq_None_iff)
  with Suc.prems(5) obtain r2 s2 where 2: "re_sub ?cb (finditer raw) [] ?s1 = Some (r2, s2)"
    by (auto split: option.splits)
  have cb: "case r of Inl err \<Rightarrow> sound es t' | Inr v \<Rightarrow> sound es t'"
    if "sound es t" "?cb c t = Some (r, t')" for c t r t'
  proof -
    have "sound es t'"
    proof (cases "c \<in> fst ` set (entries t) \<and> c \<notin> resolved t \<and> c \<notin> set (seen t)")
      case True
      with that(2) have "resolve_substitution n c t = Some (r, t')"
        by (simp add: capture_substituter_def)
      with that(1) True show ?thesis
        by (intro Suc.IH[of t c r t']) (simp_all add: sound_def)
    next
      case False
      with that show ?thesis
        by (auto simp: capture_substituter_def split: if_splits option.splits)
    qed
    then show ?thesis by (simp split: sum.splits)
  qed
  have "case r2 of Inl err \<Rightarrow> sound es s2 | Inr v \<Rightarrow> sound es s2"
    using 2 _ cb by (rule re_sub_rule[where I = "sound es"]) (use Suc.prems(1) in simp)
  then have s2: "sound es s2" by (simp split: sum.splits)
  show ?case
  proof (cases r2)
    case (Inl err)
    with Suc.prems(5) raw 2 have "s' = s2" by simp
    with s2 show ?thesis by simp
  next
    case (Inr subst)
    with Suc.prems(5) raw 2 have s': "s' = s2\<lparr>entries := (if e \<noteq> subst
                                     then AList.update e subst (entries s2)
                                     else entries s2),
                        resolved := insert e (resolved s2)\<rparr>"
      by simp
    from Suc.prems(1,3) raw have raw0: "map_of es e = Some raw" by (simp add: sound_def)
    have e2: "e \<notin> resolved s2"
      using re_sub_callback_keeps_seen_entries(2)[OF 2, of e] Suc.prems(3) by simp
    have caps: "set (captured (finditer raw)) \<subseteq> resolved s2"
      using 2 Inr by (auto dest: re_sub_captured_resolved)
    have succ: "?R `` {e} \<subseteq> resolved s2"
      using caps raw0 by (auto simp: references_eq)
    have k2: "e \<in> fst ` set (entries s2)"
      using s2 Suc.prems(2) by (simp add: sound_def)
    have 1: "fst ` set (entries s') = fst ` set es"
    proof -
      have "map fst (entries s') = map fst (entries s2)"
        using k2 by (simp add: s' update_keys)
      from arg_cong[OF this, of set] s2 show ?thesis by (simp add: sound_def)
    qed
    have 2: "map_of (entries s') k = map_of es k" if "k \<notin> resolved s'" for k
    proof -
      from that have "k \<noteq> e" "k \<notin> resolved s2" by (simp_all add: s')
      with s2 show ?thesis by (simp add: s' update_conv' sound_def)
    qed
    have 3: "resolved s' \<subseteq> fst ` set es"
      using s2 Suc.prems(2) by (simp add: s' sound_def)
    have 4: "?R `` resolved s' \<subseteq> resolved s'"
    proof -
      have "?R `` resolved s2 \<subseteq> resolved s2" using s2 by (simp add: sound_def)
      with succ show ?thesis by (auto simp: s')
    qed
    have 5: "(k, k) \<notin> ?R\<^sup>+" if "k \<in> resolved s'" for k
    proof (cases "k = e")
      case False
      with that s2 show ?thesis by (simp add: s' sound_def)
    next
      case True
      show ?thesis
      proof
        assume "(k, k) \<in> ?R\<^sup>+"
        with True obtain c where "(e, c) \<in> ?R" "(c, e) \<in> ?R\<^sup>*"
          by (auto dest: tranclD)
        with succ have "c \<in> resolved s2" by auto
        with s2 \<open>(c, e) \<in> ?R\<^sup>*\<close> have "e \<in> resolved s2" by (rule sound_reachable)
        with e2 show False ..
      qed
    qed
    from 1 2 3 4 5 show ?thesis unfolding sound_def by blast
  qed
qed

lemma substitute_loop_resolves:
  "substitute_loop n ks s = Some (Inr u, s') \<Longrightarrow> set ks \<subseteq> resolved s'"
proof (induction ks arbitrary: s)
  case Nil
  then show ?case by simp
next
  case (Cons k ks)
  show ?case
  proof (cases "k \<in> resolved s")
    case True
    with Cons.prems have 1: "substitute_loop n ks s = Some (Inr u, s')" by simp
    from advances_resolved_mono[OF substitute_loop_advances[OF 1]] True Cons.IH[OF 1]
    show ?thesis by auto
  next
    case False
    with Cons.prems obtain v s1 where
      1: "resolve_substitution n k (s\<lparr>seen := []\<rparr>) = Some (Inr v, s1)"
      and 2: "substitute_loop n ks s1 = Some (Inr u, s')"
      by (auto split: option.splits sum.splits)
    from 1 have "k \<in> resolved s1" by (rule resolve_substitution_marks_resolved)
    with advances_resolved_mono[OF substitute_loop_advances[OF 2]] Cons.IH[OF 2]
    show ?thesis by auto
  qed
qed

lemma substitute_loop_sound:
  assumes run: "substitute_loop n ks s = Some (r, s')"
    and s: "sound es s" and ks: "set ks \<subseteq> fst ` set es"
  shows "sound es s'"
proof -
  have "case r of Inl e \<Rightarrow> sound es s' | Inr u \<Rightarrow> sound es s'"
    using run s
  proof (rule substitute_loop_rule[where I = "sound es"])
    fix k t r t'
    assume "sound es t" "k \<in> set ks" "k \<notin> resolved t"
      and "resolve_substitution n k (t\<lparr>seen := []\<rparr>) = Some (r, t')"
    with ks have "sound es t'"
      by (intro resolve_substitution_sound[of es "t\<lparr>seen := []\<rparr>" k n r t']) auto
    then show "case r of Inl e \<Rightarrow> sound es t' | Inr u \<Rightarrow> sound es t'"
      by (simp split: sum.splits)
  qed
  then show ?thesis by (simp split: sum.splits)
qed

lemma sound_initial: "sound es \<lparr>entries = es, resolved = {}, seen = []\<rparr>"
  by (simp add: sound_def)

lemma substitute_success_sound:
  assumes "substitute n es = Some (Inr res, es')"
  shows "fully_defined es \<and> acyclic (references es)"
proof -
  let ?s0 = "\<lparr>entries = es, resolved = {}, seen = []\<rparr>"
  let ?R = "references es"
  from assms obtain u s' where run: "substitute_loop n (map fst es) ?s0 = Some (Inr u, s')"
    by (auto simp: substitute_def split: option.splits sum.splits)
  from substitute_loop_sound[OF run sound_initial] have s: "sound es s'" by simp
  from substitute_loop_resolves[OF run] have "fst ` set es \<subseteq> resolved s'" by simp
  with s have all: "resolved s' = fst ` set es" by (auto simp: sound_def)
  have dom: "k \<in> fst ` set es" if "(k, c) \<in> ?R" for k c
    using that by (auto simp: references_eq dest!: map_of_SomeD intro: rev_image_eqI)
  have "snd ` ?R \<subseteq> fst ` set es"
  proof
    fix c assume "c \<in> snd ` ?R"
    then obtain k where kc: "(k, c) \<in> ?R" by auto
    with dom all have "k \<in> resolved s'" by simp
    with kc s have "c \<in> resolved s'" unfolding sound_def by blast
    with all show "c \<in> fst ` set es" by simp
  qed
  moreover have "(x, x) \<notin> ?R\<^sup>+" for x
  proof
    assume c: "(x, x) \<in> ?R\<^sup>+"
    then obtain y where "(x, y) \<in> ?R" by (auto dest: tranclD)
    with dom all have "x \<in> resolved s'" by simp
    with s c show False by (simp add: sound_def)
  qed
  ultimately show ?thesis by (simp add: fully_defined_def acyclic_def)
qed

subsection \<open>A cyclic-reference error means a cycle of references\<close>

lemma callback_extends:
  "capture_substituter (resolve_substitution n) c s = Some (r, s') \<Longrightarrow> extends s s'"
  by (erule capture_substituter_extends[rotated]) (rule resolve_substitution_extends)

lemma callback_distinct:
  assumes "distinct (seen s)"
    and "capture_substituter (resolve_substitution n) c s = Some (r, s')"
  shows "case r of Inl e \<Rightarrow> chain_ok e s' | Inr v \<Rightarrow> distinct (seen s')"
  using assms
  by (rule capture_substituter_distinct[rotated]) (rule resolve_substitution_distinct[OF assms(1)])

lemma re_sub_callback_distinct:
  assumes "re_sub (capture_substituter (resolve_substitution n)) ps out s = Some (r, s')"
    and "distinct (seen s)"
  shows "case r of Inl e \<Rightarrow> chain_ok e s' | Inr v \<Rightarrow> distinct (seen s')"
  using assms
  by (rule re_sub_rule[where I = "\<lambda>s. distinct (seen s)"]) (rule callback_distinct)

lemma re_sub_callback_sound:
  assumes run: "re_sub (capture_substituter (resolve_substitution n)) ps out s = Some (r, s')"
    and s: "sound es s"
  shows "sound es s'"
proof -
  let ?cb = "capture_substituter (resolve_substitution n)"
  have cb: "case r of Inl err \<Rightarrow> sound es t' | Inr v \<Rightarrow> sound es t'"
    if "sound es t" "?cb c t = Some (r, t')" for c t r t'
  proof -
    have "sound es t'"
    proof (cases "c \<in> fst ` set (entries t) \<and> c \<notin> resolved t \<and> c \<notin> set (seen t)")
      case True
      with that(2) have "resolve_substitution n c t = Some (r, t')"
        by (simp add: capture_substituter_def)
      with that(1) True show ?thesis
        by (intro resolve_substitution_sound[of es t c n r t']) (simp_all add: sound_def)
    next
      case False
      with that show ?thesis
        by (auto simp: capture_substituter_def split: if_splits option.splits)
    qed
    then show ?thesis by (simp split: sum.splits)
  qed
  have "case r of Inl err \<Rightarrow> sound es s' | Inr v \<Rightarrow> sound es s'"
    using run s cb by (rule re_sub_rule[where I = "sound es"])
  then show ?thesis by (simp split: sum.splits)
qed

lemma resolve_substitution_finished:
  "resolve_substitution n e s = Some (Inr v, s') \<Longrightarrow>
     set (seen s') - set (seen s) \<subseteq> resolved s'"
proof (induction n arbitrary: e s v s')
  case 0
  then show ?case by simp
next
  case (Suc n)
  let ?s1 = "s\<lparr>seen := seen s @ [e]\<rparr>"
  let ?cb = "capture_substituter (resolve_substitution n)"
  let ?I = "\<lambda>t. set (seen t) - set (seen ?s1) \<subseteq> resolved t"
  from Suc.prems obtain raw s2 where
    2: "re_sub ?cb (finditer raw) [] ?s1 = Some (Inr v, s2)"
    and s': "seen s' = seen s2" "resolved s' = insert e (resolved s2)"
    by (auto split: option.splits sum.splits)
  have "case Inr v :: error + string of Inl err \<Rightarrow> True | Inr x \<Rightarrow> ?I s2"
    using 2
  proof (rule re_sub_rule[where I = ?I and E = "\<lambda>e t. True"])
    show "?I ?s1" by simp
  next
    fix c t r t'
    assume i: "?I t" and c: "?cb c t = Some (r, t')"
    show "case r of Inl err \<Rightarrow> True | Inr x \<Rightarrow> ?I t'"
    proof (cases r)
      case (Inl err)
      then show ?thesis by simp
    next
      case (Inr x)
      note m = extends_resolved_mono[OF callback_extends[OF c]]
      have "set (seen t') - set (seen t) \<subseteq> resolved t'"
        using c Inr Suc.IH[of c t x t']
        by (auto simp: capture_substituter_def split: if_splits option.splits)
      with i m have "?I t'" by blast
      with Inr show ?thesis by simp
    qed
  qed
  then have "?I s2" by simp
  then show ?case by (auto simp: s')
qed

lemma re_sub_callback_finished:
  assumes run: "re_sub (capture_substituter (resolve_substitution n)) ps out s = Some (Inr v, s')"
  shows "set (seen s') - set (seen s) \<subseteq> resolved s'"
proof -
  let ?cb = "capture_substituter (resolve_substitution n)"
  let ?I = "\<lambda>t. set (seen t) - set (seen s) \<subseteq> resolved t"
  have "case Inr v :: error + string of Inl err \<Rightarrow> True | Inr x \<Rightarrow> ?I s'"
    using run
  proof (rule re_sub_rule[where I = ?I and E = "\<lambda>e t. True"])
    show "?I s" by simp
  next
    fix c t r t'
    assume i: "?I t" and c: "?cb c t = Some (r, t')"
    show "case r of Inl err \<Rightarrow> True | Inr x \<Rightarrow> ?I t'"
    proof (cases r)
      case (Inl err)
      then show ?thesis by simp
    next
      case (Inr x)
      note m = extends_resolved_mono[OF callback_extends[OF c]]
      have "set (seen t') - set (seen t) \<subseteq> resolved t'"
        using c Inr resolve_substitution_finished[of n c t x t']
        by (auto simp: capture_substituter_def split: if_splits option.splits)
      with i m have "?I t'" by blast
      with Inr show ?thesis by simp
    qed
  qed
  then show ?thesis by simp
qed

lemma re_sub_callback_active:
  assumes run: "re_sub (capture_substituter (resolve_substitution n)) ps out s = Some (Inr v, s')"
    and d: "distinct (seen s)"
  shows "active s' = active s"
proof -
  from extends_prefix[OF re_sub_callback_extends[OF run]] obtain new where
    new: "seen s' = seen s @ new" by (auto simp: prefix_def)
  from re_sub_callback_distinct[OF run d] have "distinct (seen s')" by simp
  with new have "set new \<inter> set (seen s) = {}" by auto
  with re_sub_callback_finished[OF run] new have "set new \<subseteq> resolved s'" by auto
  then have 1: "filter (\<lambda>k. k \<notin> resolved s') new = []" by (auto simp: filter_empty_conv)
  have 2: "filter (\<lambda>k. k \<notin> resolved s') (seen s) = filter (\<lambda>k. k \<notin> resolved s) (seen s)"
    using re_sub_callback_keeps_seen_entries(2)[OF run] by (intro filter_cong) auto
  from 1 2 show ?thesis by (simp add: active_def new)
qed

lemma successively_reaches_last:
  "successively P (xs @ [e]) \<Longrightarrow> c \<in> set (xs @ [e]) \<Longrightarrow> (c, e) \<in> {(a, b). P a b}\<^sup>*"
proof (induction xs arbitrary: c)
  case Nil
  then show ?case by simp
next
  case (Cons x xs)
  from Cons.prems(1) have h: "P x (hd (xs @ [e]))" and t: "successively P (xs @ [e])"
    by (simp_all add: successively_Cons)
  have "hd (xs @ [e]) \<in> set (xs @ [e])" by (cases xs) simp_all
  with t have l: "(hd (xs @ [e]), e) \<in> {(a, b). P a b}\<^sup>*" by (rule Cons.IH)
  show ?case
  proof (cases "c = x")
    case True
    from h have "(x, hd (xs @ [e])) \<in> {(a, b). P a b}" by simp
    with l True show ?thesis by (auto intro: converse_rtrancl_into_rtrancl)
  next
    case False
    with Cons.prems(2) have "c \<in> set (xs @ [e])" by simp
    with t show ?thesis by (rule Cons.IH)
  qed
qed

lemma resolve_substitution_cycle:
  "sound es s \<Longrightarrow> e \<in> fst ` set es \<Longrightarrow> e \<notin> resolved s \<Longrightarrow> e \<notin> set (seen s) \<Longrightarrow>
   distinct (seen s) \<Longrightarrow> successively (\<lambda>a b. (a, b) \<in> references es) (active s @ [e]) \<Longrightarrow>
   resolve_substitution n e s = Some (Inl (CyclicSubstitutionError chain), s') \<Longrightarrow>
     \<not> acyclic (references es)"
proof (induction n arbitrary: e s)
  case 0
  then show ?case by simp
next
  case (Suc n)
  let ?s1 = "s\<lparr>seen := seen s @ [e]\<rparr>"
  let ?cb = "capture_substituter (resolve_substitution n)"
  let ?R = "references es"
  from Suc.prems(7) obtain raw where raw: "map_of (entries s) e = Some raw"
    and 2: "re_sub ?cb (finditer raw) [] ?s1 = Some (Inl (CyclicSubstitutionError chain), s')"
    by (auto split: option.splits sum.splits)
  from Suc.prems(1,3) raw have raw0: "map_of es e = Some raw" by (simp add: sound_def)
  from re_sub_error_split[OF 2] obtain ps1 c ps2 out' t where
    ps: "finditer raw = ps1 @ Placeholder c # ps2"
    and 3: "re_sub ?cb ps1 [] ?s1 = Some (Inr out', t)"
    and 4: "?cb c t = Some (Inl (CyclicSubstitutionError chain), s')"
    by blast
  have ec: "(e, c) \<in> ?R"
    using raw0 ps by (auto simp: references_eq set_captured)
  have d1: "distinct (seen ?s1)" using Suc.prems(4,5) by simp
  have a1: "active ?s1 = active s @ [e]"
    using Suc.prems(3) by (simp add: active_def)
  from re_sub_callback_active[OF 3 d1] a1 have at: "active t = active s @ [e]" by simp
  have st: "sound es t"
    using 3 by (rule re_sub_callback_sound) (use Suc.prems(1) in simp)
  from re_sub_callback_distinct[OF 3 d1] have dt: "distinct (seen t)" by simp
  show ?case
  proof (cases "c \<in> fst ` set (entries t) \<and> c \<notin> resolved t")
    case False
    with 4 show ?thesis
      by (auto simp: capture_substituter_def split: if_splits option.splits)
  next
    case True
    show ?thesis
    proof (cases "c \<in> set (seen t)")
      case True
      with \<open>c \<in> fst ` set (entries t) \<and> c \<notin> resolved t\<close> have "c \<in> set (active t)"
        by (simp add: active_def)
      with at have "c \<in> set (active s @ [e])" by simp
      with Suc.prems(6) have "(c, e) \<in> {(a, b). (a, b) \<in> ?R}\<^sup>*"
        by (rule successively_reaches_last)
      then have "(c, e) \<in> ?R\<^sup>*" by simp
      from this ec have "(c, c) \<in> ?R\<^sup>+" by (rule rtrancl_into_trancl1)
      then show ?thesis by (auto simp: acyclic_def)
    next
      case False
      with True 4 have r: "resolve_substitution n c t =
          Some (Inl (CyclicSubstitutionError chain), s')"
        by (simp add: capture_substituter_def)
      have "successively (\<lambda>a b. (a, b) \<in> ?R) (active t @ [c])"
        using Suc.prems(6) ec by (simp add: at successively_append_iff)
      with st True False dt r show ?thesis
        by (intro Suc.IH[of t c]) (simp_all add: sound_def)
    qed
  qed
qed

lemma substitute_loop_cycle:
  assumes run: "substitute_loop n ks s = Some (Inl (CyclicSubstitutionError chain), s')"
    and s: "sound es s" and ks: "set ks \<subseteq> fst ` set es"
  shows "\<not> acyclic (references es)"
proof -
  let ?E = "\<lambda>e (t::state). e = CyclicSubstitutionError chain \<longrightarrow> \<not> acyclic (references es)"
  have "case Inl (CyclicSubstitutionError chain) :: error + unit of
          Inl e \<Rightarrow> ?E e s' | Inr u \<Rightarrow> sound es s'"
    using run s
  proof (rule substitute_loop_rule[where I = "sound es" and E = ?E])
    fix k t r t'
    assume t: "sound es t" and k: "k \<in> set ks" "k \<notin> resolved t"
      and r: "resolve_substitution n k (t\<lparr>seen := []\<rparr>) = Some (r, t')"
    show "case r of Inl e \<Rightarrow> ?E e t' | Inr u \<Rightarrow> sound es t'"
    proof (cases r)
      case (Inl e)
      have "\<not> acyclic (references es)" if "e = CyclicSubstitutionError chain"
      proof -
        from r Inl that have "resolve_substitution n k (t\<lparr>seen := []\<rparr>) =
            Some (Inl (CyclicSubstitutionError chain), t')" by simp
        then show ?thesis
          by (rule resolve_substitution_cycle[rotated -1])
             (use t k ks in \<open>auto simp: active_def\<close>)
      qed
      with Inl show ?thesis by simp
    next
      case (Inr v)
      from t k ks r have "sound es t'"
        by (intro resolve_substitution_sound[of es "t\<lparr>seen := []\<rparr>" k n r t']) auto
      with Inr show ?thesis by simp
    qed
  qed
  then show ?thesis by simp
qed

lemma substitute_cyclic_sound:
  assumes "substitute n es = Some (Inl (CyclicSubstitutionError chain), es')"
  shows "\<not> acyclic (references es)"
proof -
  from assms obtain s' where "substitute_loop n (map fst es)
      \<lparr>entries = es, resolved = {}, seen = []\<rparr> = Some (Inl (CyclicSubstitutionError chain), s')"
    by (auto simp: substitute_def split: option.splits sum.splits)
  then show ?thesis by (rule substitute_loop_cycle) (simp_all add: sound_initial)
qed

subsection \<open>The outcome of substitute\<close>

lemma substitute_total:
  assumes "length es \<le> n"
  obtains r es' where "substitute n es = Some (r, es')" and "\<And>k. r \<noteq> Inl (KeyError k)"
    and "substitute (length es) es = Some (r, es')"
proof -
  let ?s0 = "\<lparr>entries = es, resolved = {}, seen = []\<rparr>"
  have "card (fst ` set es) \<le> length es"
    by (metis card_length length_map list.set_map)
  then have "substitute_loop (length es) (map fst es) ?s0 \<noteq> None"
    by (intro substitute_loop_terminates) auto
  then obtain r0 s where l: "substitute_loop (length es) (map fst es) ?s0 = Some (r0, s)"
    by auto
  have nk: "err \<noteq> KeyError k" if "r0 = Inl err" for err k
    using l that substitute_loop_no_KeyError[of "length es" "map fst es" ?s0 err s k] by auto
  obtain r where s0: "substitute (length es) es = Some (r, entries s)"
    and r: "\<And>k. r \<noteq> Inl (KeyError k)"
  proof (cases r0)
    case (Inl err)
    with l have "substitute (length es) es = Some (Inl err, entries s)"
      by (simp add: substitute_def)
    with nk[OF Inl] show ?thesis using that[of "Inl err"] by simp
  next
    case (Inr u)
    with l have "substitute (length es) es = Some (Inr (entries s), entries s)"
      by (simp add: substitute_def)
    then show ?thesis using that[of "Inr (entries s)"] by simp
  qed
  from substitute_fuel[OF s0 assms] r s0 that show ?thesis by blast
qed

lemma substitute_undefined_sound:
  assumes "substitute n es = Some (Inl (UndefinedSubstitutionError name), es')"
  shows "name \<notin> fst ` set es"
    and "\<exists>k v. map_of es k = Some v \<and> Placeholder name \<in> set (finditer v)"
    and "\<not> fully_defined es"
proof -
  let ?s0 = "\<lparr>entries = es, resolved = {}, seen = []\<rparr>"
  from assms obtain s' where
    "substitute_loop n (map fst es) ?s0 = Some (Inl (UndefinedSubstitutionError name), s')"
    by (auto simp: substitute_def split: option.splits sum.splits)
  then have d: "dangling ?s0 name" by (rule substitute_loop_undefined)
  then show 1: "name \<notin> fst ` set es" by (simp add: dangling_def)
  from d show 2: "\<exists>k v. map_of es k = Some v \<and> Placeholder name \<in> set (finditer v)"
    by (auto simp: dangling_def)
  then obtain k where "(k, name) \<in> references es"
    by (auto simp: references_eq set_captured)
  then have "name \<in> snd ` references es" by (rule rev_image_eqI) simp
  with 1 show "\<not> fully_defined es" by (auto simp: fully_defined_def)
qed

lemma substitute_cyclic_complete:
  assumes "length es \<le> n" and "fully_defined es" and "\<not> acyclic (references es)"
  shows "\<exists>chain es'. substitute n es = Some (Inl (CyclicSubstitutionError chain), es')"
proof -
  from assms(1) obtain r es' where r: "substitute n es = Some (r, es')"
    and nk: "\<And>k. r \<noteq> Inl (KeyError k)"
    by (rule substitute_total) blast
  show ?thesis
  proof (cases r)
    case (Inr res)
    with r assms(3) substitute_success_sound show ?thesis by blast
  next
    case (Inl err)
    show ?thesis
    proof (cases err)
      case (CyclicSubstitutionError chain)
      with r Inl show ?thesis by simp
    next
      case (UndefinedSubstitutionError name)
      with r Inl assms(2) substitute_undefined_sound(3) show ?thesis by blast
    next
      case (KeyError k)
      with Inl nk show ?thesis by simp
    qed
  qed
qed

lemma substitute_undefined_complete:
  assumes "length es \<le> n" and "acyclic (references es)" and "\<not> fully_defined es"
  shows "\<exists>name es'. substitute n es = Some (Inl (UndefinedSubstitutionError name), es')"
proof -
  from assms(1) obtain r es' where r: "substitute n es = Some (r, es')"
    and nk: "\<And>k. r \<noteq> Inl (KeyError k)"
    by (rule substitute_total) blast
  show ?thesis
  proof (cases r)
    case (Inr res)
    with r assms(3) substitute_success_sound show ?thesis by blast
  next
    case (Inl err)
    show ?thesis
    proof (cases err)
      case (CyclicSubstitutionError chain)
      with r Inl assms(2) substitute_cyclic_sound show ?thesis by blast
    next
      case (UndefinedSubstitutionError name)
      with r Inl show ?thesis by simp
    next
      case (KeyError k)
      with Inl nk show ?thesis by simp
    qed
  qed
qed

lemma substitute_success_complete:
  assumes "length es \<le> n" and "fully_defined es" and "acyclic (references es)"
  shows "\<exists>res. substitute n es = Some (Inr res, res)"
proof -
  from assms(1) obtain r es' where r: "substitute n es = Some (r, es')"
    and nk: "\<And>k. r \<noteq> Inl (KeyError k)"
    by (rule substitute_total) blast
  show ?thesis
  proof (cases r)
    case (Inr res)
    with r have "res = es'" by (auto simp: substitute_def split: option.splits sum.splits)
    with r Inr show ?thesis by simp
  next
    case (Inl err)
    show ?thesis
    proof (cases err)
      case (CyclicSubstitutionError chain)
      with r Inl assms(3) substitute_cyclic_sound show ?thesis by blast
    next
      case (UndefinedSubstitutionError name)
      with r Inl assms(2) substitute_undefined_sound(3) show ?thesis by blast
    next
      case (KeyError k)
      with Inl nk show ?thesis by simp
    qed
  qed
qed

section \<open>Claims about the stored values\<close>

text \<open>
  Claim C1: when \<^verbatim>\<open>substitute\<close> succeeds, every entry's stored value is its fully
  substituted form, and the stored value is overwritten whenever the substituted string
  differs from the value stored before.

  The code does not do this. Line 52 compares the substituted string with the entry's
  name, not with its stored value, so an entry whose substituted string equals its own
  name is never written back. For \<^verbatim>\<open>{'A': '${B}', 'B': 'A'}\<close> the call returns
  the dictionary unchanged: the value of \<^verbatim>\<open>A\<close> is still \<^verbatim>\<open>${B}\<close>,
  although its substituted form is the string \<^verbatim>\<open>A\<close>, which differs from the
  stored value.
\<close>

theorem stored_value_not_substituted:
  "substitute 2 [(''A'', ''${B}''), (''B'', ''A'')] =
     Some (Inr [(''A'', ''${B}''), (''B'', ''A'')], [(''A'', ''${B}''), (''B'', ''A'')])
   \<and> resolve_substitution 2 ''A''
         \<lparr>entries = [(''A'', ''${B}''), (''B'', ''A'')], resolved = {}, seen = []\<rparr> =
       Some (Inr ''A'',
         \<lparr>entries = [(''A'', ''${B}''), (''B'', ''A'')], resolved = {''A'', ''B''},
          seen = [''A'', ''B'']\<rparr>)"
  by code_simp

text \<open>
  Claim C2: when \<^verbatim>\<open>substitute\<close> succeeds, the resolved dictionary is the same
  for every order in which the keys are iterated.

  The code does not do this, for the reason given at C1. In
  \<^verbatim>\<open>{'A': '${B}', 'B': 'A', 'C': '${A}'}\<close> the entry \<^verbatim>\<open>A\<close> keeps its raw value.
  When \<^verbatim>\<open>A\<close> is iterated before \<^verbatim>\<open>C\<close>, \<^verbatim>\<open>C\<close> receives the stored raw
  value of the already resolved \<^verbatim>\<open>A\<close>; when \<^verbatim>\<open>C\<close> comes first, it receives
  the string that the nested call for \<^verbatim>\<open>A\<close> returns.
\<close>

theorem result_depends_on_key_order:
  "substitute 3 [(''A'', ''${B}''), (''B'', ''A''), (''C'', ''${A}'')] =
     Some (Inr [(''A'', ''${B}''), (''B'', ''A''), (''C'', ''${B}'')],
           [(''A'', ''${B}''), (''B'', ''A''), (''C'', ''${B}'')])
   \<and> substitute 3 [(''C'', ''${A}''), (''A'', ''${B}''), (''B'', ''A'')] =
     Some (Inr [(''C'', ''A''), (''A'', ''${B}''), (''B'', ''A'')],
           [(''C'', ''A''), (''A'', ''${B}''), (''B'', ''A'')])"
  by code_simp

text \<open>
  Claim C3: when \<^verbatim>\<open>substitute\<close> succeeds and two entries refer to a third one,
  the third is resolved once and both referring entries receive its identical, fully
  resolved value.

  The code does not do this, for the reason given at C1. Below, \<^verbatim>\<open>C\<close> and
  \<^verbatim>\<open>D\<close> both refer to \<^verbatim>\<open>A\<close>, whose resolved value is the string
  \<^verbatim>\<open>A\<close>. \<^verbatim>\<open>C\<close> receives it from the nested call; \<^verbatim>\<open>D\<close> receives the
  raw value \<^verbatim>\<open>${B}\<close> that is still stored for \<^verbatim>\<open>A\<close>.
\<close>

theorem fan_out_values_differ:
  "substitute 3 [(''C'', ''${A}''), (''A'', ''${B}''), (''B'', ''A''), (''D'', ''${A}'')] =
     Some (Inr [(''C'', ''A''), (''A'', ''${B}''), (''B'', ''A''), (''D'', ''${B}'')],
           [(''C'', ''A''), (''A'', ''${B}''), (''B'', ''A''), (''D'', ''${B}'')])"
  by code_simp

section \<open>The two errors\<close>

text \<open>
  Claim C4: whenever resolving an entry requires resolving itself again before it is
  marked resolved, \<^verbatim>\<open>substitute\<close> raises a cyclic-reference error whose payload is
  the chain of names from the first repetition point to the name that closed the
  cycle, repeated at the end.

  The payload is not that chain. It is the whole list \<^verbatim>\<open>seen\<close> of the current
  top-level call with the repeated name appended: it starts with the top-level entry,
  which need not be on the cycle, and it also lists the entries that were resolved to
  the end earlier in the call. In \<^verbatim>\<open>{'A': '${B}', 'B': '${B}'}\<close> the repeated name
  is \<^verbatim>\<open>B\<close> and the payload starts with \<^verbatim>\<open>A\<close>; in
  \<^verbatim>\<open>{'A': '${B}${C}', 'B': 'x', 'C': '${A}'}\<close> the payload contains \<^verbatim>\<open>B\<close>,
  which is not on the cycle.
\<close>

theorem chain_starts_before_the_cycle:
  "substitute 2 [(''A'', ''${B}''), (''B'', ''${B}'')] =
     Some (Inl (CyclicSubstitutionError [''A'', ''B'', ''B'']),
           [(''A'', ''${B}''), (''B'', ''${B}'')])
   \<and> hd [''A'', ''B'', ''B''] \<noteq> last [''A'', ''B'', ''B'']
   \<and> substitute 3 [(''A'', ''${B}${C}''), (''B'', ''x''), (''C'', ''${A}'')] =
     Some (Inl (CyclicSubstitutionError [''A'', ''B'', ''C'', ''A'']),
           [(''A'', ''${B}${C}''), (''B'', ''x''), (''C'', ''${A}'')])"
  by code_simp

text \<open>
  Claim C4 as amended: whenever the callback meets a capture that is a key, is not
  marked resolved and is already in \<^verbatim>\<open>seen\<close> (a self-reference included), it
  appends the capture to \<^verbatim>\<open>seen\<close> and raises a cyclic-reference error whose payload
  is that list, and the scan ends there. The payload of a cyclic-reference error of a
  call of \<^verbatim>\<open>resolve_substitution\<close> starts with the list \<^verbatim>\<open>seen\<close> that the call
  was given, followed by its entry. The payload that \<^verbatim>\<open>substitute\<close> raises starts
  with a key, consists of keys, ends with a name that occurs in it before, and has no
  other duplicate; and the error is raised only if the references of the input contain
  a cycle. When every name referred to is a key and the references contain a cycle,
  \<^verbatim>\<open>substitute\<close> raises the cyclic-reference error.
\<close>

theorem cyclic_reference:
  "(c \<in> fst ` set (entries s) \<longrightarrow> c \<notin> resolved s \<longrightarrow> c \<in> set (seen s) \<longrightarrow>
      capture_substituter rs c s =
        Some (Inl (CyclicSubstitutionError (seen s @ [c])), s\<lparr>seen := seen s @ [c]\<rparr>) \<and>
      re_sub (capture_substituter rs) (Placeholder c # ps) out s =
        Some (Inl (CyclicSubstitutionError (seen s @ [c])), s\<lparr>seen := seen s @ [c]\<rparr>)) \<and>
   (resolve_substitution n e s = Some (Inl (CyclicSubstitutionError chain), s') \<longrightarrow>
      prefix (seen s @ [e]) chain) \<and>
   (substitute n es = Some (Inl (CyclicSubstitutionError chain), es') \<longrightarrow>
      hd chain \<in> fst ` set es \<and> set chain \<subseteq> fst ` set es \<and>
      distinct (butlast chain) \<and> last chain \<in> set (butlast chain) \<and>
      \<not> acyclic (references es)) \<and>
   (length es \<le> n \<longrightarrow> fully_defined es \<longrightarrow> \<not> acyclic (references es) \<longrightarrow>
      (\<exists>chain es'. substitute n es = Some (Inl (CyclicSubstitutionError chain), es')))"
proof -
  have a: "c \<in> fst ` set (entries s) \<longrightarrow> c \<notin> resolved s \<longrightarrow> c \<in> set (seen s) \<longrightarrow>
      capture_substituter rs c s =
        Some (Inl (CyclicSubstitutionError (seen s @ [c])), s\<lparr>seen := seen s @ [c]\<rparr>) \<and>
      re_sub (capture_substituter rs) (Placeholder c # ps) out s =
        Some (Inl (CyclicSubstitutionError (seen s @ [c])), s\<lparr>seen := seen s @ [c]\<rparr>)"
    by (simp add: capture_substituter_def)
  have b: "prefix (seen s @ [e]) chain"
    if r: "resolve_substitution n e s = Some (Inl (CyclicSubstitutionError chain), s')"
  proof -
    from resolve_substitution_prefix[OF r] have "prefix (seen s @ [e]) (seen s')" .
    moreover from r have "chain = seen s'" by (rule resolve_substitution_payload)
    ultimately show ?thesis by simp
  qed
  have c: "hd chain \<in> fst ` set es \<and> set chain \<subseteq> fst ` set es \<and>
      distinct (butlast chain) \<and> last chain \<in> set (butlast chain) \<and>
      \<not> acyclic (references es)"
    if r: "substitute n es = Some (Inl (CyclicSubstitutionError chain), es')"
  proof -
    let ?s0 = "\<lparr>entries = es, resolved = {}, seen = []\<rparr>"
    from r obtain s' where
      "substitute_loop n (map fst es) ?s0 = Some (Inl (CyclicSubstitutionError chain), s')"
      by (auto simp: substitute_def split: option.splits sum.splits)
    from substitute_loop_chain[OF this] substitute_cyclic_sound[OF r] show ?thesis by simp
  qed
  have d: "\<exists>chain es'. substitute n es = Some (Inl (CyclicSubstitutionError chain), es')"
    if "length es \<le> n" "fully_defined es" "\<not> acyclic (references es)"
    using that by (rule substitute_cyclic_complete)
  from a b c d show ?thesis by blast
qed

theorem cyclic_reference_witness:
  "''B'' \<in> fst ` set (entries \<lparr>entries = [(''A'', ''${B}''), (''B'', ''${B}'')],
        resolved = {}, seen = [''A'', ''B'']\<rparr>)
   \<and> ''B'' \<notin> resolved \<lparr>entries = [(''A'', ''${B}''), (''B'', ''${B}'')],
        resolved = {}, seen = [''A'', ''B'']\<rparr>
   \<and> ''B'' \<in> set (seen \<lparr>entries = [(''A'', ''${B}''), (''B'', ''${B}'')],
        resolved = {}, seen = [''A'', ''B'']\<rparr>)
   \<and> length [(''A'', ''${B}''), (''B'', ''${B}'')] \<le> (2::nat)
   \<and> fully_defined [(''A'', ''${B}''), (''B'', ''${B}'')]
   \<and> \<not> acyclic (references [(''A'', ''${B}''), (''B'', ''${B}'')])
   \<and> substitute 2 [(''A'', ''${B}''), (''B'', ''${B}'')] =
       Some (Inl (CyclicSubstitutionError [''A'', ''B'', ''B'']),
             [(''A'', ''${B}''), (''B'', ''${B}'')])
   \<and> set [''A'', ''B'', ''B''] \<subseteq> fst ` set [(''A'', ''${B}''), (''B'', ''${B}'')]
   \<and> distinct (butlast [''A'', ''B'', ''B''])
   \<and> last [''A'', ''B'', ''B''] \<in> set (butlast [''A'', ''B'', ''B''])"
proof -
  let ?es = "[(''A'', ''${B}''), (''B'', ''${B}'')]"
  let ?s = "\<lparr>entries = ?es, resolved = {}, seen = [''A'', ''B'']\<rparr>"
  have 1: "''B'' \<in> fst ` set (entries ?s)" "''B'' \<notin> resolved ?s" "''B'' \<in> set (seen ?s)"
    by simp_all
  have 2: "substitute 2 ?es = Some (Inl (CyclicSubstitutionError [''A'', ''B'', ''B'']), ?es)"
    by code_simp
  have 3: "length ?es \<le> (2::nat)" by simp
  have 4: "fully_defined ?es"
    by (auto simp: fully_defined_def references_eq match_placeholder_def ident_char_def
             split: if_splits)
  have "(''B'', ''B'') \<in> references ?es"
    by (simp add: references_eq match_placeholder_def ident_char_def)
  then have 5: "\<not> acyclic (references ?es)" by (auto simp: acyclic_def)
  from cyclic_reference[where c = "''B''" and s = ?s and n = 2 and es = ?es
      and chain = "[''A'', ''B'', ''B'']" and es' = ?es] 1 2 3 4 5
  show ?thesis by simp
qed

text \<open>
  Claim C5: whenever a placeholder \<^verbatim>\<open>${name}\<close> is met in an entry's value and
  \<^verbatim>\<open>name\<close> is not a key, \<^verbatim>\<open>substitute\<close> fails at once with an
  undefined-reference error that carries this name, and the error is raised in this
  situation only.

  The callback raises the error for a capture that is no key, whatever the rest of the
  state is, and leaves the state as it is; the scan stops there. Conversely, when
  \<^verbatim>\<open>substitute\<close> raises the error for a name, the name is not a key of the input
  and a value of the input contains a placeholder for it. And when some name referred
  to is no key and the references contain no cycle (which would be reported if it were
  met first), \<^verbatim>\<open>substitute\<close> raises the undefined-reference error.
\<close>

theorem undefined_reference:
  "(c \<notin> fst ` set (entries s) \<longrightarrow>
      capture_substituter rs c s = Some (Inl (UndefinedSubstitutionError c), s) \<and>
      re_sub (capture_substituter rs) (Placeholder c # ps) out s =
        Some (Inl (UndefinedSubstitutionError c), s)) \<and>
   (substitute n es = Some (Inl (UndefinedSubstitutionError name), es') \<longrightarrow>
      name \<notin> fst ` set es \<and>
      (\<exists>k v. map_of es k = Some v \<and> Placeholder name \<in> set (finditer v))) \<and>
   (length es \<le> n \<longrightarrow> acyclic (references es) \<longrightarrow> \<not> fully_defined es \<longrightarrow>
      (\<exists>name es'. substitute n es = Some (Inl (UndefinedSubstitutionError name), es')))"
proof -
  have a: "c \<notin> fst ` set (entries s) \<longrightarrow>
      capture_substituter rs c s = Some (Inl (UndefinedSubstitutionError c), s) \<and>
      re_sub (capture_substituter rs) (Placeholder c # ps) out s =
        Some (Inl (UndefinedSubstitutionError c), s)"
    by (simp add: capture_substituter_def)
  have b: "name \<notin> fst ` set es \<and>
      (\<exists>k v. map_of es k = Some v \<and> Placeholder name \<in> set (finditer v))"
    if "substitute n es = Some (Inl (UndefinedSubstitutionError name), es')"
    using substitute_undefined_sound(1,2)[OF that] by simp
  have c: "\<exists>name es'. substitute n es = Some (Inl (UndefinedSubstitutionError name), es')"
    if "length es \<le> n" "acyclic (references es)" "\<not> fully_defined es"
    using that by (rule substitute_undefined_complete)
  from a b c show ?thesis by blast
qed

theorem undefined_reference_witness:
  "''B'' \<notin> fst ` set (entries \<lparr>entries = [(''A'', ''x${B}'')], resolved = {}, seen = [''A'']\<rparr>)
   \<and> length [(''A'', ''x${B}'')] \<le> (1::nat)
   \<and> acyclic (references [(''A'', ''x${B}'')])
   \<and> \<not> fully_defined [(''A'', ''x${B}'')]
   \<and> substitute 1 [(''A'', ''x${B}'')] =
       Some (Inl (UndefinedSubstitutionError ''B''), [(''A'', ''x${B}'')])
   \<and> ''B'' \<notin> fst ` set [(''A'', ''x${B}'')]
   \<and> (\<exists>k v. map_of [(''A'', ''x${B}'')] k = Some v \<and> Placeholder ''B'' \<in> set (finditer v))"
proof -
  let ?es = "[(''A'', ''x${B}'')]"
  let ?s = "\<lparr>entries = ?es, resolved = {}, seen = [''A'']\<rparr>"
  have 1: "''B'' \<notin> fst ` set (entries ?s)" by simp
  have 2: "substitute 1 ?es = Some (Inl (UndefinedSubstitutionError ''B''), ?es)"
    by code_simp
  have 3: "length ?es \<le> (1::nat)" by simp
  have "references ?es = {(''A'', ''B'')}"
    by (auto simp: references_eq match_placeholder_def ident_char_def split: if_splits)
  then have 4: "acyclic (references ?es)" by (simp add: acyclic_insert wf_acyclic)
  have "(''A'', ''B'') \<in> references ?es"
    by (simp add: references_eq match_placeholder_def ident_char_def)
  then have "''B'' \<in> snd ` references ?es" by (rule rev_image_eqI) simp
  then have 5: "\<not> fully_defined ?es" by (auto simp: fully_defined_def)
  from undefined_reference[where c = "''B''" and s = ?s and n = 1
      and es = ?es and name = "''B''" and es' = ?es] 1 2 3 4 5
  show ?thesis by simp
qed

section \<open>Termination\<close>

text \<open>
  Claim C6: for every finite input dictionary \<^verbatim>\<open>substitute\<close> terminates: it
  returns the dictionary or raises one of its two errors. The recursion is bounded by
  the keys: a nested call is made only for a key that is not yet in \<^verbatim>\<open>seen\<close>, so
  fuel for as many nested calls as the dictionary has entries is never used up, the
  outcome does not depend on how much more fuel there is, and the lookup
  \<^verbatim>\<open>entries[entry]\<close> never fails.
\<close>

theorem substitute_terminates:
  "length es \<le> n \<Longrightarrow>
     (\<exists>r es'. substitute n es = Some (r, es') \<and>
        (case r of
           Inr res \<Rightarrow> res = es'
         | Inl (CyclicSubstitutionError chain) \<Rightarrow> True
         | Inl (UndefinedSubstitutionError name) \<Rightarrow> True
         | Inl (KeyError k) \<Rightarrow> False)) \<and>
     substitute n es = substitute (length es) es"
proof -
  assume n: "length es \<le> n"
  let ?s0 = "\<lparr>entries = es, resolved = {}, seen = []\<rparr>"
  have "card (fst ` set es) \<le> length es"
    by (metis card_length length_map list.set_map)
  then have "substitute_loop (length es) (map fst es) ?s0 \<noteq> None"
    by (intro substitute_loop_terminates) auto
  then obtain r0 s where l: "substitute_loop (length es) (map fst es) ?s0 = Some (r0, s)"
    by auto
  have nk: "err \<noteq> KeyError k" if "r0 = Inl err" for err k
    using l that substitute_loop_no_KeyError[of "length es" "map fst es" ?s0 err s k] by auto
  obtain r where s0: "substitute (length es) es = Some (r, entries s)"
    and r: "case r of Inr res \<Rightarrow> res = entries s
         | Inl (CyclicSubstitutionError chain) \<Rightarrow> True
         | Inl (UndefinedSubstitutionError name) \<Rightarrow> True
         | Inl (KeyError k) \<Rightarrow> False"
  proof (cases r0)
    case (Inl err)
    with l have "substitute (length es) es = Some (Inl err, entries s)"
      by (simp add: substitute_def)
    moreover from nk[OF Inl] have "case err of CyclicSubstitutionError chain \<Rightarrow> True
         | UndefinedSubstitutionError name \<Rightarrow> True
         | KeyError k \<Rightarrow> False"
      by (cases err) auto
    ultimately show ?thesis using that[of "Inl err"] by simp
  next
    case (Inr u)
    with l have "substitute (length es) es = Some (Inr (entries s), entries s)"
      by (simp add: substitute_def)
    then show ?thesis using that[of "Inr (entries s)"] by simp
  qed
  from substitute_fuel[OF s0 n] have "substitute n es = Some (r, entries s)" .
  with s0 r show ?thesis by auto
qed

theorem substitute_terminates_witness:
  "length [(''A'', ''${B}''), (''B'', ''${C}'')] \<le> (2::nat) \<and>
   substitute 2 [(''A'', ''${B}''), (''B'', ''${C}'')] =
     Some (Inl (UndefinedSubstitutionError ''C''), [(''A'', ''${B}''), (''B'', ''${C}'')])"
proof -
  have h: "length [(''A'', ''${B}''), (''B'', ''${C}'')] \<le> (2::nat)" by simp
  have "substitute 2 [(''A'', ''${B}''), (''B'', ''${C}'')] =
     Some (Inl (UndefinedSubstitutionError ''C''), [(''A'', ''${B}''), (''B'', ''${C}'')])"
    by code_simp
  with substitute_terminates[OF h] h show ?thesis by simp
qed

section \<open>Resolving twice\<close>

text \<open>
  Claim C7: for an acyclic, fully defined dictionary, resolving the result of
  \<^verbatim>\<open>substitute\<close> again gives the same dictionary.

  This fails: a replacement is inserted as it is and not scanned again, so the text
  around a placeholder and the inserted value can form a new placeholder. For
  \<^verbatim>\<open>{'A': '$${B}', 'B': '{C}', 'C': 'x'}\<close> (only \<^verbatim>\<open>A\<close> refers to anything, to
  \<^verbatim>\<open>B\<close>) the first call gives \<^verbatim>\<open>A\<close> the value \<^verbatim>\<open>${C}\<close>, and the
  second call replaces that by \<^verbatim>\<open>x\<close>.
\<close>

theorem resolving_twice_differs:
  "substitute 3 [(''A'', ''$${B}''), (''B'', ''{C}''), (''C'', ''x'')] =
     Some (Inr [(''A'', ''${C}''), (''B'', ''{C}''), (''C'', ''x'')],
           [(''A'', ''${C}''), (''B'', ''{C}''), (''C'', ''x'')])
   \<and> substitute 3 [(''A'', ''${C}''), (''B'', ''{C}''), (''C'', ''x'')] =
     Some (Inr [(''A'', ''x''), (''B'', ''{C}''), (''C'', ''x'')],
           [(''A'', ''x''), (''B'', ''{C}''), (''C'', ''x'')])
   \<and> [(''A'', ''x''), (''B'', ''{C}''), (''C'', ''x'')] \<noteq>
       [(''A'', ''${C}''), (''B'', ''{C}''), (''C'', ''x'')]"
  by code_simp

text \<open>
  Claim C7 as amended: for an acyclic, fully defined dictionary, \<^verbatim>\<open>substitute\<close>
  succeeds, and when no value of its result contains a placeholder, resolving the
  result again returns it unchanged.
\<close>

theorem substitute_idempotent_without_placeholders:
  "fully_defined M \<Longrightarrow> acyclic (references M) \<Longrightarrow> length M \<le> n \<Longrightarrow>
     \<exists>R. substitute n M = Some (Inr R, R) \<and>
         (placeholder_free R \<longrightarrow> 0 < m \<longrightarrow> substitute m R = Some (Inr R, R))"
proof -
  assume "length M \<le> n" "fully_defined M" "acyclic (references M)"
  then obtain R where R: "substitute n M = Some (Inr R, R)"
    using substitute_success_complete by blast
  have "substitute m R = Some (Inr R, R)" if p: "placeholder_free R" and "0 < m"
  proof -
    from that obtain m' where m: "m = Suc m'" by (cases m) auto
    from p
    have "\<exists>s'. substitute_loop (Suc m') (map fst R) \<lparr>entries = R, resolved = {}, seen = []\<rparr> =
        Some (Inr (), s') \<and> entries s' = entries \<lparr>entries = R, resolved = {}, seen = []\<rparr>"
      by (intro substitute_loop_literal) simp_all
    then show ?thesis by (auto simp: substitute_def m)
  qed
  with R show ?thesis by blast
qed

theorem substitute_idempotent_without_placeholders_witness:
  "fully_defined [(''A'', ''${B}''), (''B'', ''x'')]
   \<and> acyclic (references [(''A'', ''${B}''), (''B'', ''x'')])
   \<and> length [(''A'', ''${B}''), (''B'', ''x'')] \<le> (2::nat)
   \<and> substitute 2 [(''A'', ''${B}''), (''B'', ''x'')] =
     Some (Inr [(''A'', ''x''), (''B'', ''x'')], [(''A'', ''x''), (''B'', ''x'')])
   \<and> placeholder_free [(''A'', ''x''), (''B'', ''x'')]
   \<and> substitute 1 [(''A'', ''x''), (''B'', ''x'')] =
     Some (Inr [(''A'', ''x''), (''B'', ''x'')], [(''A'', ''x''), (''B'', ''x'')])"
proof -
  let ?M = "[(''A'', ''${B}''), (''B'', ''x'')]"
  let ?R = "[(''A'', ''x''), (''B'', ''x'')]"
  have 1: "substitute 2 ?M = Some (Inr ?R, ?R)"
    by code_simp
  from substitute_success_sound[OF 1] have 2: "fully_defined ?M" "acyclic (references ?M)"
    by simp_all
  have 3: "length ?M \<le> (2::nat)" by simp
  have 4: "placeholder_free ?R" by code_simp
  from substitute_idempotent_without_placeholders[OF 2 3, where m = 1] 1 4
  have "substitute 1 ?R = Some (Inr ?R, ?R)" by simp
  with 1 2 3 4 show ?thesis by simp
qed

section \<open>Claims about the keys\<close>

text \<open>
  Claim C8: \<^verbatim>\<open>substitute\<close> never adds or removes a key. Whether the call returns
  or raises, the dictionary it leaves has the keys of the input, in the same order and
  number; on return, the returned dictionary is that dictionary.
\<close>

theorem substitute_preserves_keys:
  "substitute n es = Some (r, es') \<Longrightarrow>
     map fst es' = map fst es \<and> fst ` set es' = fst ` set es \<and> length es' = length es \<and>
     (case r of Inl e \<Rightarrow> True | Inr res \<Rightarrow> res = es')"
proof -
  assume a: "substitute n es = Some (r, es')"
  then obtain r0 s where l: "substitute_loop n (map fst es)
      \<lparr>entries = es, resolved = {}, seen = []\<rparr> = Some (r0, s)" and e: "es' = entries s"
    and r: "case r of Inl e \<Rightarrow> True | Inr res \<Rightarrow> res = es'"
    by (auto simp: substitute_def split: option.splits sum.splits)
  from substitute_loop_advances[OF l] have m: "map fst es' = map fst es"
    by (simp add: e advances_keys)
  have "fst ` set es' = fst ` set es"
    using arg_cong[OF m, of set] by simp
  moreover have "length es' = length es"
    using arg_cong[OF m, of length] by simp
  ultimately show ?thesis using m r by simp
qed



theorem substitute_preserves_keys_witness:
  "substitute 2 [(''A'', ''${B}''), (''B'', ''x'')] =
     Some (Inr [(''A'', ''x''), (''B'', ''x'')], [(''A'', ''x''), (''B'', ''x'')])
   \<and> map fst [(''A'', ''x''), (''B'', ''x'')] = map fst [(''A'', ''${B}''), (''B'', ''x'')]"
proof -
  have h: "substitute 2 [(''A'', ''${B}''), (''B'', ''x'')] =
     Some (Inr [(''A'', ''x''), (''B'', ''x'')], [(''A'', ''x''), (''B'', ''x'')])"
    by code_simp
  from substitute_preserves_keys[OF h] h show ?thesis by simp
qed

section \<open>The list of seen names\<close>

text \<open>
  Claim C9: at every point of the recursion of a top-level call the list
  \<^verbatim>\<open>seen\<close> has no duplicate, except for its last element at the moment a cycle is
  detected, just before the cyclic-reference error is raised.

  The list is changed in lines 45 and 50 only, inside \<^verbatim>\<open>resolve_substitution\<close>
  and the callback that the scan of \<^verbatim>\<open>re.sub\<close> runs. Both a call of
  \<^verbatim>\<open>resolve_substitution\<close> for a name that is not in the list (the only way it is
  called) and a scan only append to the list, and from a list without duplicates they
  lead to a list without duplicates, unless they raise the cyclic-reference error:
  then the list is the error's payload, its last element occurs before, and the list
  without that last element has no duplicates. A top-level call starts from the empty
  list. So every list on the way is a prefix of a list of this shape.
\<close>

theorem seen_chain_no_duplicates:
  "distinct (seen s) \<Longrightarrow>
     (e \<notin> set (seen s) \<longrightarrow> resolve_substitution n e s = Some (r, s') \<longrightarrow>
        prefix (seen s) (seen s') \<and>
        (case r of Inl err \<Rightarrow> chain_ok err s' | Inr v \<Rightarrow> distinct (seen s'))) \<and>
     (re_sub (capture_substituter (resolve_substitution n)) ps out s = Some (r, s') \<longrightarrow>
        prefix (seen s) (seen s') \<and>
        (case r of Inl err \<Rightarrow> chain_ok err s' | Inr v \<Rightarrow> distinct (seen s')))"
proof (intro conjI impI)
  assume "resolve_substitution n e s = Some (r, s')"
  then show "prefix (seen s) (seen s')"
    by (auto dest!: resolve_substitution_prefix dest: append_prefixD)
next
  assume "distinct (seen s)" "e \<notin> set (seen s)" "resolve_substitution n e s = Some (r, s')"
  then show "case r of Inl err \<Rightarrow> chain_ok err s' | Inr v \<Rightarrow> distinct (seen s')"
    by (rule resolve_substitution_distinct)
next
  assume "re_sub (capture_substituter (resolve_substitution n)) ps out s = Some (r, s')"
  then show "prefix (seen s) (seen s')"
    by (auto dest!: re_sub_callback_extends dest: extends_prefix)
next
  assume d: "distinct (seen s)"
    and r: "re_sub (capture_substituter (resolve_substitution n)) ps out s = Some (r, s')"
  have "case r of Inl e \<Rightarrow> chain_ok e t' | Inr v \<Rightarrow> distinct (seen t')"
    if "distinct (seen t)" "capture_substituter (resolve_substitution n) c t = Some (r, t')"
    for c t r t'
    using that
    by (rule capture_substituter_distinct[rotated]) (rule resolve_substitution_distinct[OF that(1)])
  with r d show "case r of Inl err \<Rightarrow> chain_ok err s' | Inr v \<Rightarrow> distinct (seen s')"
    by (rule re_sub_rule[where I = "\<lambda>s. distinct (seen s)"])
qed

theorem seen_chain_no_duplicates_witness:
  "distinct (seen \<lparr>entries = [(''A'', ''${B}''), (''B'', ''${A}'')], resolved = {}, seen = []\<rparr>)
   \<and> ''A'' \<notin> set (seen \<lparr>entries = [(''A'', ''${B}''), (''B'', ''${A}'')], resolved = {}, seen = []\<rparr>)
   \<and> resolve_substitution 2 ''A''
         \<lparr>entries = [(''A'', ''${B}''), (''B'', ''${A}'')], resolved = {}, seen = []\<rparr> =
       Some (Inl (CyclicSubstitutionError [''A'', ''B'', ''A'']),
         \<lparr>entries = [(''A'', ''${B}''), (''B'', ''${A}'')], resolved = {},
          seen = [''A'', ''B'', ''A'']\<rparr>)
   \<and> chain_ok (CyclicSubstitutionError [''A'', ''B'', ''A''])
         \<lparr>entries = [(''A'', ''${B}''), (''B'', ''${A}'')], resolved = {},
          seen = [''A'', ''B'', ''A'']\<rparr>"
proof -
  let ?s = "\<lparr>entries = [(''A'', ''${B}''), (''B'', ''${A}'')], resolved = {}, seen = []\<rparr>"
  let ?s' = "\<lparr>entries = [(''A'', ''${B}''), (''B'', ''${A}'')], resolved = {},
          seen = [''A'', ''B'', ''A'']\<rparr>"
  have d: "distinct (seen ?s)" and e: "''A'' \<notin> set (seen ?s)" by simp_all
  have r: "resolve_substitution 2 ''A'' ?s =
      Some (Inl (CyclicSubstitutionError [''A'', ''B'', ''A'']), ?s')"
    by code_simp
  from seen_chain_no_duplicates[OF d, where e = "''A''" and n = 2
      and r = "Inl (CyclicSubstitutionError [''A'', ''B'', ''A''])" and s' = ?s'] e r
  have "chain_ok (CyclicSubstitutionError [''A'', ''B'', ''A'']) ?s'" by simp
  with d e r show ?thesis by simp
qed

section \<open>The comparison of line 52\<close>

text \<open>
  Claim C10: when \<^verbatim>\<open>resolve_substitution\<close> returns for an entry \<^verbatim>\<open>E\<close>, the
  stored value of \<^verbatim>\<open>E\<close> is overwritten with the substituted string if and only if
  that string differs from the name \<^verbatim>\<open>E\<close> (not from the previous value). So when
  the substituted string equals the name, the value stored before the call is still
  stored after it, although \<^verbatim>\<open>E\<close> is now in the resolved set. (The nested calls
  made while the value of \<^verbatim>\<open>E\<close> is scanned do not write to \<^verbatim>\<open>E\<close>, which is
  in \<^verbatim>\<open>seen\<close>.)
\<close>

theorem stored_value_compared_with_name:
  "resolve_substitution n E s = Some (Inr subst, s') \<Longrightarrow>
     E \<in> resolved s' \<and>
     map_of (entries s') E = (if subst \<noteq> E then Some subst else map_of (entries s) E)"
proof (cases n)
  case 0
  assume "resolve_substitution n E s = Some (Inr subst, s')"
  with 0 show ?thesis by simp
next
  case (Suc m)
  assume a: "resolve_substitution n E s = Some (Inr subst, s')"
  let ?s1 = "s\<lparr>seen := seen s @ [E]\<rparr>"
  from a Suc obtain raw s2 where raw: "map_of (entries s) E = Some raw"
    and 2: "re_sub (capture_substituter (resolve_substitution m)) (finditer raw) [] ?s1 =
        Some (Inr subst, s2)"
    and s': "s' = s2\<lparr>entries := (if E \<noteq> subst
                                     then AList.update E subst (entries s2)
                                     else entries s2),
                        resolved := insert E (resolved s2)\<rparr>"
    by (auto split: option.splits sum.splits)
  have "map_of (entries s2) E = map_of (entries ?s1) E"
    using 2 by (rule re_sub_callback_keeps_seen_entries) simp
  then show ?thesis by (auto simp: s' update_conv')
qed

theorem stored_value_compared_with_name_witness:
  "resolve_substitution 2 ''A''
       \<lparr>entries = [(''A'', ''${B}''), (''B'', ''A'')], resolved = {}, seen = []\<rparr> =
     Some (Inr ''A'',
       \<lparr>entries = [(''A'', ''${B}''), (''B'', ''A'')], resolved = {''A'', ''B''},
        seen = [''A'', ''B'']\<rparr>)
   \<and> ''A'' \<in> resolved \<lparr>entries = [(''A'', ''${B}''), (''B'', ''A'')],
        resolved = {''A'', ''B''}, seen = [''A'', ''B'']\<rparr>
   \<and> map_of (entries \<lparr>entries = [(''A'', ''${B}''), (''B'', ''A'')],
        resolved = {''A'', ''B''}, seen = [''A'', ''B'']\<rparr>) ''A'' = Some ''${B}''"
proof -
  have r: "resolve_substitution 2 ''A''
       \<lparr>entries = [(''A'', ''${B}''), (''B'', ''A'')], resolved = {}, seen = []\<rparr> =
     Some (Inr ''A'',
       \<lparr>entries = [(''A'', ''${B}''), (''B'', ''A'')], resolved = {''A'', ''B''},
        seen = [''A'', ''B'']\<rparr>)"
    by code_simp
  from stored_value_compared_with_name[OF r] r show ?thesis by simp
qed

end
